theory Spec2Isabelle
  imports Main "HOL-Library.Word"
begin

chapter \<open>Pagerando linker support: address sampler, POT index map, rando map\<close>

section \<open>Secure address sampler (linker/linker_pagerando.cpp)\<close>

text \<open>
  \<^verbatim>\<open>ElfW(Addr)\<close> is the unsigned integer of the native address width: a
  \<open>32 word\<close> on ARM and a \<open>64 word\<close> on AArch64, so the definitions are
  polymorphic in the word length.  The window bounds are selected by the
  preprocessor; they are parameters of the model and the two configurations
  of the source are given as constants below.

  \<^verbatim>\<open>ElfW(Addr) min = -range % range;\<close>
\<close>

definition min_acceptable :: "'a::len word \<Rightarrow> 'a word" where
  "min_acceptable rng = (- rng) mod rng"

text \<open>
  The \<^verbatim>\<open>do { arc4random_buf(...) } while (random_start_address < min)\<close>
  loop.  The values that successive calls of \<^verbatim>\<open>arc4random_buf\<close> store are
  given as the list \<open>draws\<close>; the loop draws at least once and leaves with the
  first value that is not below \<open>min\<close>.  \<open>None\<close> means that every draw of
  the list was rejected, i.e. the loop has not left yet.
\<close>

fun accept_loop :: "'a::len word \<Rightarrow> 'a word list \<Rightarrow> 'a word option" where
  "accept_loop min_v [] = None"
| "accept_loop min_v (random_start_address # draws) =
     (if random_start_address < min_v then accept_loop min_v draws
      else Some random_start_address)"

definition get_random_address ::
  "'a::len word \<Rightarrow> 'a word \<Rightarrow> 'a word list \<Rightarrow> 'a word option" where
  "get_random_address RAND_ADDR_LOW RAND_ADDR_HIGH draws =
     (let rng = RAND_ADDR_HIGH - RAND_ADDR_LOW;
          min_v = min_acceptable rng
      in case accept_loop min_v draws of
           None \<Rightarrow> None
         | Some random_start_address \<Rightarrow>
             Some (random_start_address mod rng + RAND_ADDR_LOW))"

definition RAND_ADDR_LOW_arm :: "32 word" where
  "RAND_ADDR_LOW_arm = 0xb0000000"

definition RAND_ADDR_HIGH_arm :: "32 word" where
  "RAND_ADDR_HIGH_arm = 0xb6000000"

definition RAND_ADDR_LOW_aarch64 :: "64 word" where
  "RAND_ADDR_LOW_aarch64 = 0x1000000000"

definition RAND_ADDR_HIGH_aarch64 :: "64 word" where
  "RAND_ADDR_HIGH_aarch64 = 0x5000000000"

section \<open>POT index map (linker/linker_pagerando.cpp)\<close>
















section \<open>The rando map (linker/rando_map.cpp)\<close>

subsection \<open>Memory and global state\<close>

text \<open>
  The model is the LP64 build: pointers, \<^verbatim>\<open>size_t\<close> and \<^verbatim>\<open>uintptr_t\<close> are
  64-bit words, \<^verbatim>\<open>sizeof(RandoMapNode)\<close> is 72 (eight 8-byte fields and
  the 4-byte \<^verbatim>\<open>prio\<close>, padded), \<^verbatim>\<open>sizeof(RandoMapHeader)\<close> is 16 and
  \<^verbatim>\<open>PAGE_SIZE\<close> is 4096.  The null pointer is the address 0.
\<close>

type_synonym addr = "64 word"

definition nullptr :: addr where
  "nullptr = 0"

definition PAGE_SIZE :: addr where
  "PAGE_SIZE = 4096"

definition sizeof_RandoMapNode :: addr where
  "sizeof_RandoMapNode = 72"

definition sizeof_RandoMapHeader :: addr where
  "sizeof_RandoMapHeader = 16"

definition kMapVersion :: "64 word" where
  "kMapVersion = 1"

definition UINT32_MAX :: "32 word" where
  "UINT32_MAX = 0xFFFFFFFF"

record RandoMapNode =
  div_start :: addr
  div_end :: addr
  undiv_start :: addr
  undiv_vaddr :: addr
  num_funcs :: "64 word"
  funcs :: addr
  left :: addr
  right :: addr
  prio :: "32 word"

text \<open>
  \<^verbatim>\<open>struct RandoMapPage { RandoMapNode *next; RandoMapNode *limit; }\<close>; the
  field \<^verbatim>\<open>next\<close> is written \<open>next_p\<close>.
\<close>

record RandoMapPage =
  next_p :: addr
  limit :: addr

text \<open>
  The state of the module: the node storage, addressed by the address of a
  node (\<open>mem\<close>), the two fields of the header that
  \<^verbatim>\<open>rando_map_header\<close> points to, and the globals \<^verbatim>\<open>current_page\<close> and
  \<^verbatim>\<open>free_list\<close>.  Nodes are handed out at distinct slots, so storage is
  kept per node and not per byte.
\<close>

record rando_map =
  mem :: "addr \<Rightarrow> RandoMapNode"
  version :: "64 word"
  root :: addr
  current_page :: RandoMapPage
  free_list :: addr

definition zero_node :: RandoMapNode where
  "zero_node = \<lparr>div_start = 0, div_end = 0, undiv_start = 0, undiv_vaddr = 0,
     num_funcs = 0, funcs = 0, left = 0, right = 0, prio = 0\<rparr>"

text \<open>The globals as the static initialisers leave them, before \<^verbatim>\<open>rando_map_init\<close>.\<close>

definition boot :: rando_map where
  "boot = \<lparr>mem = (\<lambda>_. zero_node), version = 0, root = 0,
     current_page = \<lparr>next_p = nullptr, limit = nullptr\<rparr>, free_list = nullptr\<rparr>"

text \<open>\<^verbatim>\<open>__libc_fatal(msg)\<close> ends the process: the error value of every operation.\<close>

datatype fatal = Fatal string

subsection \<open>Arena allocator\<close>

text \<open>
  \<^verbatim>\<open>alloc_map_page\<close>.  The result of \<^verbatim>\<open>mmap\<close> is the environment's:
  \<open>None\<close> is \<^verbatim>\<open>MAP_FAILED\<close>, \<open>Some map_start\<close> the address of the fresh
  page.  \<^verbatim>\<open>memset(map_start, 0, PAGE_SIZE)\<close> clears every node of the page.
\<close>

definition alloc_map_page :: "addr option \<Rightarrow> rando_map \<Rightarrow> fatal + addr \<times> rando_map" where
  "alloc_map_page mmap_result s =
     (case mmap_result of
        None \<Rightarrow> Inl (Fatal ''rando_map mmap failed'')
      | Some map_start \<Rightarrow>
          Inr (map_start,
               s\<lparr>mem := (\<lambda>a. if a - map_start < PAGE_SIZE then zero_node else mem s a),
                 current_page := \<lparr>next_p = map_start,
                                  limit = map_start + PAGE_SIZE - sizeof_RandoMapNode\<rparr>\<rparr>))"

definition rando_map_init :: "addr option \<Rightarrow> rando_map \<Rightarrow> fatal + rando_map" where
  "rando_map_init mmap_result s =
     (case alloc_map_page mmap_result s of
        Inl e \<Rightarrow> Inl e
      | Inr (map_start, s1) \<Rightarrow>
          Inr (s1\<lparr>version := kMapVersion, root := nullptr,
                  current_page := (current_page s1)
                    \<lparr>next_p := map_start + sizeof_RandoMapHeader\<rparr>\<rparr>))"

definition alloc_node :: "addr option \<Rightarrow> rando_map \<Rightarrow> fatal + addr \<times> rando_map" where
  "alloc_node mmap_result s =
     (if free_list s \<noteq> nullptr then
        (let res = free_list s in Inr (res, s\<lparr>free_list := right (mem s res)\<rparr>))
      else
        (case (if next_p (current_page s) > limit (current_page s)
               then alloc_map_page mmap_result s else Inr (nullptr, s)) of
           Inl e \<Rightarrow> Inl e
         | Inr (_, s1) \<Rightarrow>
             (let res = next_p (current_page s1) in
              Inr (res, s1\<lparr>current_page := (current_page s1)
                             \<lparr>next_p := res + sizeof_RandoMapNode\<rparr>\<rparr>))))"

subsection \<open>Rotations, insertion and deletion\<close>

text \<open>
  A \<^verbatim>\<open>RandoMapNode **\<close> is one of three places: the \<^verbatim>\<open>root\<close> field of the
  header, or the \<^verbatim>\<open>left\<close> or \<^verbatim>\<open>right\<close> field of a node.
\<close>

datatype loc = Root | LeftOf addr | RightOf addr

fun rd :: "loc \<Rightarrow> rando_map \<Rightarrow> addr" where
  "rd Root s = root s"
| "rd (LeftOf p) s = left (mem s p)"
| "rd (RightOf p) s = right (mem s p)"

fun wr :: "loc \<Rightarrow> addr \<Rightarrow> rando_map \<Rightarrow> rando_map" where
  "wr Root v s = s\<lparr>root := v\<rparr>"
| "wr (LeftOf p) v s = s\<lparr>mem := (mem s)(p := (mem s p)\<lparr>left := v\<rparr>)\<rparr>"
| "wr (RightOf p) v s = s\<lparr>mem := (mem s)(p := (mem s p)\<lparr>right := v\<rparr>)\<rparr>"

definition rotate_left_son :: "loc \<Rightarrow> rando_map \<Rightarrow> addr \<times> rando_map" where
  "rotate_left_son ptr s =
     (let curr = rd ptr s;
          son = left (mem s curr);
          gson = right (mem s son);
          s1 = wr (RightOf son) curr s;
          s2 = wr (LeftOf curr) gson s1;
          s3 = wr ptr son s2
      in (son, s3))"

definition rotate_right_son :: "loc \<Rightarrow> rando_map \<Rightarrow> addr \<times> rando_map" where
  "rotate_right_son ptr s =
     (let curr = rd ptr s;
          son = right (mem s curr);
          gson = left (mem s son);
          s1 = wr (LeftOf son) curr s;
          s2 = wr (RightOf curr) gson s1;
          s3 = wr ptr son s2
      in (son, s3))"

text \<open>
  The two recursive functions follow links in memory, so they are partial:
  \<open>None\<close> is a recursion that does not return.  A returned \<open>Inl\<close> is the
  fatal path.
\<close>

partial_function (option) map_tree_insert_node ::
  "addr \<Rightarrow> loc \<Rightarrow> rando_map \<Rightarrow> (fatal + rando_map) option" where
  "map_tree_insert_node node ptr s =
     (let curr = rd ptr s in
      if curr = nullptr then Some (Inr (wr ptr node s))
      else if div_start (mem s node) < div_start (mem s curr) then
        Option.bind (map_tree_insert_node node (LeftOf curr) s) (\<lambda>res.
          case res of
            Inl e \<Rightarrow> Some (Inl e)
          | Inr s1 \<Rightarrow>
              if prio (mem s1 (left (mem s1 curr))) > prio (mem s1 curr)
              then Some (Inr (snd (rotate_left_son ptr s1)))
              else Some (Inr s1))
      else if div_start (mem s node) \<ge> div_end (mem s curr) then
        Option.bind (map_tree_insert_node node (RightOf curr) s) (\<lambda>res.
          case res of
            Inl e \<Rightarrow> Some (Inl e)
          | Inr s1 \<Rightarrow>
              if prio (mem s1 (right (mem s1 curr))) > prio (mem s1 curr)
              then Some (Inr (snd (rotate_right_son ptr s1)))
              else Some (Inr s1))
      else Some (Inl (Fatal ''overlapping rando map nodes'')))"

partial_function (option) map_tree_delete_node ::
  "addr \<Rightarrow> loc \<Rightarrow> rando_map \<Rightarrow> (fatal + addr \<times> rando_map) option" where
  "map_tree_delete_node dstart ptr s =
     (let curr = rd ptr s in
      if curr = nullptr then Some (Inl (Fatal ''trying to delete inexistent node''))
      else if dstart < div_start (mem s curr) then
        map_tree_delete_node dstart (LeftOf curr) s
      else if dstart \<ge> div_end (mem s curr) then
        map_tree_delete_node dstart (RightOf curr) s
      else
        (let s1 = s\<lparr>mem := (mem s)(curr := (mem s curr)\<lparr>prio := 0\<rparr>)\<rparr> in
         if left (mem s1 curr) = nullptr then
           Some (Inr (curr, wr ptr (right (mem s1 curr)) s1))
         else if right (mem s1 curr) = nullptr then
           Some (Inr (curr, wr ptr (left (mem s1 curr)) s1))
         else if prio (mem s1 (left (mem s1 curr))) > prio (mem s1 (right (mem s1 curr))) then
           (case rotate_left_son ptr s1 of (son, s2) \<Rightarrow>
              map_tree_delete_node dstart (RightOf son) s2)
         else
           (case rotate_right_son ptr s1 of (son, s2) \<Rightarrow>
              map_tree_delete_node dstart (LeftOf son) s2)))"

subsection \<open>The interface: add and delete\<close>

text \<open>
  Modelled from the spec: \<^verbatim>\<open>arc4random_uniform\<close> is libc code that is not
  among the sources at hand.  The spec says that the priority is drawn
  uniformly, and describes the draw that is free of modulo bias: with
  \<open>min = 2^W mod bound\<close>, computed as \<open>(-bound) mod bound\<close>, a raw value of
  the generator is drawn again while it is below \<open>min\<close>, and the accepted
  value is reduced modulo the bound.  The model is that draw at the width of
  \<^verbatim>\<open>uint32_t\<close>, with the bound that the caller passes; a bound below 2
  gives 0 without a draw.  The raw outputs of the generator are the list
  \<open>draws\<close>, and \<open>None\<close> means that every output of the list was rejected,
  i.e. the call has not returned yet.
\<close>

definition arc4random_uniform :: "32 word \<Rightarrow> 32 word list \<Rightarrow> 32 word option" where
  "arc4random_uniform upper_bound draws =
     (if upper_bound < 2 then Some 0
      else case accept_loop (min_acceptable upper_bound) draws of
             None \<Rightarrow> None
           | Some r \<Rightarrow> Some (r mod upper_bound))"

text \<open>
  \<^verbatim>\<open>rando_map_add\<close>.  After \<^verbatim>\<open>alloc_node()\<close> the source executes
  \<^verbatim>\<open>current_page.next++\<close> once more, on both paths of the allocator.  The
  priority is the result of \<^verbatim>\<open>arc4random_uniform(UINT32_MAX)\<close>; while that
  call has not returned, neither has \<^verbatim>\<open>rando_map_add\<close>.
\<close>

definition rando_map_add ::
  "addr option \<Rightarrow> 32 word list \<Rightarrow> addr \<Rightarrow> 64 word \<Rightarrow> addr \<Rightarrow> addr \<Rightarrow> 64 word \<Rightarrow> addr
     \<Rightarrow> rando_map \<Rightarrow> (fatal + rando_map) option" where
  "rando_map_add mmap_result draws dstart dsize ustart uvaddr nfuncs fs s =
     (case alloc_node mmap_result s of
        Inl e \<Rightarrow> Some (Inl e)
      | Inr (node, s1) \<Rightarrow>
          (case arc4random_uniform UINT32_MAX draws of
             None \<Rightarrow> None
           | Some p \<Rightarrow>
               (let s2 = s1\<lparr>current_page := (current_page s1)
                            \<lparr>next_p := next_p (current_page s1) + sizeof_RandoMapNode\<rparr>\<rparr>;
                    s3 = s2\<lparr>mem := (mem s2)(node :=
                            \<lparr>div_start = dstart, div_end = dstart + dsize,
                             undiv_start = ustart, undiv_vaddr = uvaddr,
                             num_funcs = nfuncs, funcs = fs,
                             left = nullptr, right = nullptr,
                             prio = p\<rparr>)\<rparr>
                in map_tree_insert_node node Root s3)))"

definition rando_map_delete :: "addr \<Rightarrow> rando_map \<Rightarrow> (fatal + rando_map) option" where
  "rando_map_delete dstart s =
     Option.bind (map_tree_delete_node dstart Root s) (\<lambda>res.
       case res of
         Inl e \<Rightarrow> Some (Inl e)
       | Inr (node, s1) \<Rightarrow>
           (let s2 = s1\<lparr>mem := (mem s1)(node := zero_node)\<rparr>;
                s3 = s2\<lparr>mem := (mem s2)(node := (mem s2 node)\<lparr>right := free_list s2\<rparr>)\<rparr>
            in Some (Inr (s3\<lparr>free_list := node\<rparr>))))"

text \<open>
  The state after \<^verbatim>\<open>rando_map_init()\<close> when \<^verbatim>\<open>mmap\<close> returned the page
  at \<open>0x10000\<close>: the starting point of the concrete runs below.
\<close>

definition after_init :: rando_map where
  "after_init = projr (rando_map_init (Some 0x10000) boot)"

section \<open>The linked tree as a value\<close>

text \<open>
  The treap lives in memory as nodes linked by their \<^verbatim>\<open>left\<close> and
  \<^verbatim>\<open>right\<close> fields.  A \<open>ptree\<close> is the shape of such a tree: the
  addresses of its nodes.  \<open>nodes\<close> are the live nodes, \<open>inorder\<close> the
  in-order traversal and \<open>rootp\<close> the pointer that designates the tree
  (the null pointer for the empty tree).
\<close>

datatype ptree = Lf | Nd ptree addr ptree

fun nodes :: "ptree \<Rightarrow> addr set" where
  "nodes Lf = {}"
| "nodes (Nd l a r) = insert a (nodes l \<union> nodes r)"

fun inorder :: "ptree \<Rightarrow> addr list" where
  "inorder Lf = []"
| "inorder (Nd l a r) = inorder l @ a # inorder r"

fun rootp :: "ptree \<Rightarrow> addr" where
  "rootp Lf = nullptr"
| "rootp (Nd l a r) = a"

text \<open>
  A shape is well formed when its nodes are pairwise distinct and none is
  null.  Memory \<open>m\<close> links the shape when every node's \<^verbatim>\<open>left\<close> and
  \<^verbatim>\<open>right\<close> fields point to its two subtrees.  \<open>tree_at s ptr t\<close>:
  in state \<open>s\<close> the pointer stored at \<open>ptr\<close> designates the finite tree
  \<open>t\<close>.  \<open>loc_free ptr A\<close>: the place \<open>ptr\<close> is not a field of a node
  of \<open>A\<close>.
\<close>

fun wf_shape :: "ptree \<Rightarrow> bool" where
  "wf_shape Lf = True"
| "wf_shape (Nd l a r) =
     (a \<noteq> nullptr \<and> a \<notin> nodes l \<and> a \<notin> nodes r \<and> (\<forall>x\<in>nodes l. x \<notin> nodes r) \<and>
      wf_shape l \<and> wf_shape r)"

fun linked :: "(addr \<Rightarrow> RandoMapNode) \<Rightarrow> ptree \<Rightarrow> bool" where
  "linked m Lf = True"
| "linked m (Nd l a r) =
     (left (m a) = rootp l \<and> right (m a) = rootp r \<and> linked m l \<and> linked m r)"

definition tree_at :: "rando_map \<Rightarrow> loc \<Rightarrow> ptree \<Rightarrow> bool" where
  "tree_at s ptr t \<longleftrightarrow> rd ptr s = rootp t \<and> linked (mem s) t \<and> wf_shape t"

fun loc_free :: "loc \<Rightarrow> addr set \<Rightarrow> bool" where
  "loc_free Root A = True"
| "loc_free (LeftOf p) A = (p \<notin> A)"
| "loc_free (RightOf p) A = (p \<notin> A)"

text \<open>
  \<open>link t m\<close> is memory \<open>m\<close> with the links of the nodes of \<open>t\<close> set
  as the shape says (\<open>lnk t a\<close> are the two links of node \<open>a\<close>), and
  \<open>relink ptr t s\<close> the state in which the tree \<open>t\<close> hangs at \<open>ptr\<close>.
  \<open>zap_prio c s\<close> is the assignment \<^verbatim>\<open>curr->prio = 0\<close>;
  \<open>unlink x lx rx s\<close> is the state in which the detached node \<open>x\<close>
  has priority 0 and the stale links \<open>lx\<close> and \<open>rx\<close>.
\<close>

fun link :: "ptree \<Rightarrow> (addr \<Rightarrow> RandoMapNode) \<Rightarrow> addr \<Rightarrow> RandoMapNode" where
  "link Lf m a = m a"
| "link (Nd l x r) m a =
     (if a = x then (m a)\<lparr>left := rootp l, right := rootp r\<rparr>
      else if a \<in> nodes l then link l m a else link r m a)"

fun lnk :: "ptree \<Rightarrow> addr \<Rightarrow> addr \<times> addr" where
  "lnk Lf a = (nullptr, nullptr)"
| "lnk (Nd l x r) a =
     (if a = x then (rootp l, rootp r) else if a \<in> nodes l then lnk l a else lnk r a)"

definition relink :: "loc \<Rightarrow> ptree \<Rightarrow> rando_map \<Rightarrow> rando_map" where
  "relink ptr t s = wr ptr (rootp t) (s\<lparr>mem := link t (mem s)\<rparr>)"

definition zap_prio :: "addr \<Rightarrow> rando_map \<Rightarrow> rando_map" where
  "zap_prio c s = s\<lparr>mem := (mem s)(c := (mem s c)\<lparr>prio := 0\<rparr>)\<rparr>"

definition unlink :: "addr \<Rightarrow> addr \<Rightarrow> addr \<Rightarrow> rando_map \<Rightarrow> rando_map" where
  "unlink x lx rx s = s\<lparr>mem := (mem s)(x := (mem s x)\<lparr>prio := 0, left := lx, right := rx\<rparr>)\<rparr>"

text \<open>
  The two rotations, the insertion and the deletion on shapes.  They make
  the same comparisons as \<open>map_tree_insert_node\<close> and
  \<open>map_tree_delete_node\<close>, reading the fields of the nodes from \<open>m\<close>;
  the refinement theorems below show that the functions on memory compute
  exactly these.  \<open>del_root\<close> removes the root by rotating it below its
  child of higher priority until it has at most one child.
\<close>

fun rot_left :: "ptree \<Rightarrow> ptree" where
  "rot_left (Nd (Nd ll s lr) c r) = Nd ll s (Nd lr c r)"
| "rot_left t = t"

fun rot_right :: "ptree \<Rightarrow> ptree" where
  "rot_right (Nd l c (Nd rl s rr)) = Nd (Nd l c rl) s rr"
| "rot_right t = t"

fun ins :: "(addr \<Rightarrow> RandoMapNode) \<Rightarrow> addr \<Rightarrow> ptree \<Rightarrow> fatal + ptree" where
  "ins m n Lf = Inr (Nd Lf n Lf)"
| "ins m n (Nd l c r) =
     (if div_start (m n) < div_start (m c) then
        (case ins m n l of
           Inl e \<Rightarrow> Inl e
         | Inr l' \<Rightarrow> Inr (if prio (m (rootp l')) > prio (m c)
                          then rot_left (Nd l' c r) else Nd l' c r))
      else if div_start (m n) \<ge> div_end (m c) then
        (case ins m n r of
           Inl e \<Rightarrow> Inl e
         | Inr r' \<Rightarrow> Inr (if prio (m (rootp r')) > prio (m c)
                          then rot_right (Nd l c r') else Nd l c r'))
      else Inl (Fatal ''overlapping rando map nodes''))"

fun del_root :: "(addr \<Rightarrow> RandoMapNode) \<Rightarrow> ptree \<Rightarrow> ptree" where
  "del_root m Lf = Lf"
| "del_root m (Nd Lf c r) = r"
| "del_root m (Nd (Nd ll a lr) c Lf) = Nd ll a lr"
| "del_root m (Nd (Nd ll a lr) c (Nd rl b rr)) =
     (if prio (m a) > prio (m b)
      then Nd ll a (del_root m (Nd lr c (Nd rl b rr)))
      else Nd (del_root m (Nd (Nd ll a lr) c rl)) b rr)"

fun del :: "(addr \<Rightarrow> RandoMapNode) \<Rightarrow> addr \<Rightarrow> ptree \<Rightarrow> fatal + addr \<times> ptree" where
  "del m k Lf = Inl (Fatal ''trying to delete inexistent node'')"
| "del m k (Nd l c r) =
     (if k < div_start (m c) then
        (case del m k l of Inl e \<Rightarrow> Inl e | Inr (x, l') \<Rightarrow> Inr (x, Nd l' c r))
      else if k \<ge> div_end (m c) then
        (case del m k r of Inl e \<Rightarrow> Inl e | Inr (x, r') \<Rightarrow> Inr (x, Nd l c r'))
      else Inr (c, del_root m (Nd l c r)))"

section \<open>The invariants of the treap\<close>

text \<open>
  \<open>bst_order\<close>: the in-order traversal of \<^verbatim>\<open>div_start\<close> is strictly
  ascending.  \<open>heap_order\<close>: the priority of every node is at least the
  priority of each child that is present.
\<close>

definition bst_order :: "(addr \<Rightarrow> RandoMapNode) \<Rightarrow> ptree \<Rightarrow> bool" where
  "bst_order m t \<longleftrightarrow> sorted_wrt (\<lambda>a b. div_start (m a) < div_start (m b)) (inorder t)"

fun heap_order :: "(addr \<Rightarrow> RandoMapNode) \<Rightarrow> ptree \<Rightarrow> bool" where
  "heap_order m Lf = True"
| "heap_order m (Nd l c r) =
     (heap_order m l \<and> heap_order m r \<and>
      (l \<noteq> Lf \<longrightarrow> prio (m (rootp l)) \<le> prio (m c)) \<and>
      (r \<noteq> Lf \<longrightarrow> prio (m (rootp r)) \<le> prio (m c)))"

text \<open>
  \<open>contains m a k\<close> is the containment test of a node,
  \<^verbatim>\<open>div_start <= k < div_end\<close>.  \<open>nonempty_intervals\<close>: every live
  interval has its start below its end.  \<open>disjoint_ascending\<close>: in the
  in-order traversal every interval ends at or before the start of every
  later one, the non-overlap invariant of the registry.
\<close>

definition contains :: "(addr \<Rightarrow> RandoMapNode) \<Rightarrow> addr \<Rightarrow> addr \<Rightarrow> bool" where
  "contains m a k \<longleftrightarrow> div_start (m a) \<le> k \<and> k < div_end (m a)"

definition nonempty_intervals :: "(addr \<Rightarrow> RandoMapNode) \<Rightarrow> ptree \<Rightarrow> bool" where
  "nonempty_intervals m t \<longleftrightarrow> (\<forall>a\<in>nodes t. div_start (m a) < div_end (m a))"

definition disjoint_ascending :: "(addr \<Rightarrow> RandoMapNode) \<Rightarrow> ptree \<Rightarrow> bool" where
  "disjoint_ascending m t \<longleftrightarrow>
     sorted_wrt (\<lambda>a b. div_end (m a) \<le> div_start (m b)) (inorder t)"

text \<open>
  A state reached by the interface, used for concrete runs: after
  initialisation, \<open>[0x2000, 0x2400)\<close> is registered with priority 5 and then
  \<open>[0x1000, 0x1400)\<close> with priority 4.
\<close>

definition two_regions :: rando_map where
  "two_regions =
     (case rando_map_add None [5] 0x2000 0x400 0xA000 0xA000 3 0x7000 after_init of
        Some (Inr s1) \<Rightarrow>
          (case rando_map_add None [4] 0x1000 0x400 0x9000 0x9000 2 0x6000 s1 of
             Some (Inr s2) \<Rightarrow> s2 | _ \<Rightarrow> s1)
      | _ \<Rightarrow> after_init)"

definition three_regions :: rando_map where
  "three_regions =
     (case rando_map_add None [3] 0x3000 0x400 0xB000 0xB000 4 0x8000 two_regions of
        Some (Inr s3) \<Rightarrow> s3 | _ \<Rightarrow> two_regions)"

definition three_regions_pending :: rando_map where
  "three_regions_pending =
     three_regions\<lparr>mem := (mem three_regions)(0x101c0 :=
        \<lparr>div_start = 0x4000, div_end = 0x4400, undiv_start = 0xC000, undiv_vaddr = 0xC000,
         num_funcs = 1, funcs = 0x9000, left = nullptr, right = nullptr, prio = 9\<rparr>)\<rparr>"

section \<open>Properties of the address sampler\<close>

subsection \<open>Counting residues in a window of whole buckets\<close>

lemma window_one:
  fixes A R K :: nat
  assumes "K < R"
  shows "card {n. A \<le> n \<and> n < A + R \<and> n mod R = K} = 1"
proof -
  define x where "x = A + (K + R - A mod R) mod R"
  have R0: "0 < R" using assms by simp
  have xm: "x mod R = K"
  proof -
    have "x mod R = (A mod R + (K + R - A mod R) mod R) mod R"
      unfolding x_def by (simp add: mod_add_left_eq)
    also have "\<dots> = (A mod R + (K + R - A mod R)) mod R"
      by (simp add: mod_add_right_eq)
    also have "A mod R + (K + R - A mod R) = K + R"
      using mod_less_divisor[OF R0, of A] by simp
    finally show ?thesis using assms by simp
  qed
  have xr: "A \<le> x" "x < A + R"
    unfolding x_def using mod_less_divisor[OF R0] by simp_all
  have uniq: "n = x" if "A \<le> n" "n < A + R" "n mod R = K" for n
  proof -
    have e: "n mod R = x mod R" using that xm by simp
    have d: "a = b" if "a \<le> b" "b - a < R" "a mod R = b mod R" for a b :: nat
    proof -
      have "R dvd b - a" using that(1,3) by (metis mod_eq_dvd_iff_nat)
      then show ?thesis using that(1,2) by (auto dest: dvd_imp_le)
    qed
    show ?thesis
    proof (cases "n \<le> x")
      case True
      show ?thesis by (rule d) (use True that xr e in simp_all)
    next
      case False
      have "x = n" by (rule d) (use False that xr e in simp_all)
      then show ?thesis by simp
    qed
  qed
  have "{n. A \<le> n \<and> n < A + R \<and> n mod R = K} = {x}"
  proof (rule set_eqI)
    fix n show "n \<in> {n. A \<le> n \<and> n < A + R \<and> n mod R = K} \<longleftrightarrow> n \<in> {x}"
      using xm xr uniq[of n] by blast
  qed
  then show ?thesis by simp
qed

lemma window_count:
  fixes A R K Q :: nat
  assumes "K < R"
  shows "card {n. A \<le> n \<and> n < A + Q * R \<and> n mod R = K} = Q"
proof (induction Q)
  case 0
  then show ?case by simp
next
  case (Suc Q)
  let ?S = "{n. A \<le> n \<and> n < A + Q * R \<and> n mod R = K}"
  let ?T = "{n. A + Q * R \<le> n \<and> n < (A + Q * R) + R \<and> n mod R = K}"
  have split: "{n. A \<le> n \<and> n < A + Suc Q * R \<and> n mod R = K} = ?S \<union> ?T"
  proof (rule set_eqI)
    fix n
    have "A + Suc Q * R = (A + Q * R) + R" by simp
    then show "n \<in> {n. A \<le> n \<and> n < A + Suc Q * R \<and> n mod R = K} \<longleftrightarrow> n \<in> ?S \<union> ?T"
      by (simp only: mem_Collect_eq Un_iff) linarith
  qed
  have fin: "finite ?S" "finite ?T" by simp_all
  have disj: "?S \<inter> ?T = {}" by (rule equals0I) (simp, linarith)
  have "card (?S \<union> ?T) = card ?S + card ?T"
    using card_Un_disjoint[OF fin disj] .
  then show ?case
    using Suc.IH window_one[OF assms, of "A + Q * R"] split by simp
qed

subsection \<open>The rejection threshold and the accepted values\<close>

lemma unat_neg_mod:
  fixes r :: "'a::len word"
  assumes "r \<noteq> 0"
  shows "unat ((- r) mod r) = 2 ^ LENGTH('a) mod unat r"
proof -
  have r0: "0 < unat r" using assms by (simp add: unat_gt_0)
  have rl: "unat r < 2 ^ LENGTH('a)" by simp
  have "unat (- r) = 2 ^ LENGTH('a) - unat r"
    using r0 unat_sub_if_size[of 0 r] by (simp add: word_size)
  then have "unat ((- r) mod r) = (2 ^ LENGTH('a) - unat r) mod unat r"
    by (simp add: unat_mod)
  also have "\<dots> = 2 ^ LENGTH('a) mod unat r"
    using le_mod_geq[OF less_imp_le[OF rl]] by simp
  finally show ?thesis .
qed

lemma accepted_card:
  fixes rng k :: "'a::len word"
  assumes "k < rng"
  shows "card {r. min_acceptable rng \<le> r \<and> r mod rng = k} =
         (2 ^ LENGTH('a) - unat (min_acceptable rng)) div unat rng"
proof -
  let ?R = "unat rng" and ?M = "unat (min_acceptable rng)"
  let ?Q = "2 ^ LENGTH('a) div ?R"
  have r0: "rng \<noteq> 0" using assms by auto
  have R0: "0 < ?R" using r0 by (simp add: unat_gt_0)
  have M: "?M = 2 ^ LENGTH('a) mod ?R"
    unfolding min_acceptable_def by (rule unat_neg_mod[OF r0])
  have tot: "(2::nat) ^ LENGTH('a) = ?M + ?Q * ?R"
    unfolding M by simp
  have K: "unat k < ?R" using assms by (simp add: word_less_nat_alt)
  have img: "unat ` {r. min_acceptable rng \<le> r \<and> r mod rng = k} =
             {n. ?M \<le> n \<and> n < ?M + ?Q * ?R \<and> n mod ?R = unat k}"
  proof (rule set_eqI)
    fix n
    show "n \<in> unat ` {r. min_acceptable rng \<le> r \<and> r mod rng = k} \<longleftrightarrow>
          n \<in> {n. ?M \<le> n \<and> n < ?M + ?Q * ?R \<and> n mod ?R = unat k}"
    proof
      assume "n \<in> unat ` {r. min_acceptable rng \<le> r \<and> r mod rng = k}"
      then obtain r where r: "n = unat r" "min_acceptable rng \<le> r" "r mod rng = k"
        by auto
      have "unat r < 2 ^ LENGTH('a)" by simp
      moreover have "unat r mod ?R = unat k" using r(3) by (simp flip: unat_mod)
      ultimately show "n \<in> {n. ?M \<le> n \<and> n < ?M + ?Q * ?R \<and> n mod ?R = unat k}"
        using r(1,2) tot by (simp add: word_le_nat_alt)
    next
      assume "n \<in> {n. ?M \<le> n \<and> n < ?M + ?Q * ?R \<and> n mod ?R = unat k}"
      then have n: "?M \<le> n" "n < 2 ^ LENGTH('a)" "n mod ?R = unat k"
        using tot by simp_all
      let ?r = "word_of_nat n :: 'a word"
      have u: "unat ?r = n" using n(2) by (simp add: unat_of_nat)
      have "unat (?r mod rng) = unat k" using n(3) u by (simp add: unat_mod)
      then have "?r mod rng = k" by (simp only: word_unat_eq_iff)
      moreover have "min_acceptable rng \<le> ?r" using n(1) u by (simp add: word_le_nat_alt)
      ultimately show "n \<in> unat ` {r. min_acceptable rng \<le> r \<and> r mod rng = k}"
        using u by (metis (mono_tags, lifting) image_eqI mem_Collect_eq)
    qed
  qed
  have "card {r. min_acceptable rng \<le> r \<and> r mod rng = k} =
        card (unat ` {r. min_acceptable rng \<le> r \<and> r mod rng = k})"
    by (rule card_image[symmetric]) (simp add: inj_on_def word_unat_eq_iff)
  also have "\<dots> = ?Q" unfolding img by (rule window_count[OF K])
  also have "?Q = (2 ^ LENGTH('a) - ?M) div ?R"
  proof -
    have "2 ^ LENGTH('a) - ?M = ?Q * ?R" using tot by linarith
    then show ?thesis using R0 by (simp only: div_mult_self_is_m)
  qed
  finally show ?thesis .
qed

lemma accept_loop_dropWhile:
  "(case accept_loop m draws of None \<Rightarrow> None | Some r \<Rightarrow> Some (f r)) =
   (case dropWhile (\<lambda>r. r < m) draws of [] \<Rightarrow> None | r # _ \<Rightarrow> Some (f r))"
  by (induction draws) simp_all

lemma mapped_in_window:
  fixes LOW HIGH r :: "'a::len word"
  assumes "LOW < HIGH"
  shows "LOW \<le> r mod (HIGH - LOW) + LOW \<and> r mod (HIGH - LOW) + LOW < HIGH"
proof -
  let ?g = "HIGH - LOW"
  have g: "unat ?g = unat HIGH - unat LOW"
    using assms by (simp add: unat_sub)
  have lt: "unat LOW < unat HIGH" using assms by (simp add: word_less_nat_alt)
  then have g0: "0 < unat ?g" using g by simp
  have m: "unat (r mod ?g) < unat ?g"
    unfolding unat_mod using g0 by simp
  have H: "unat HIGH < 2 ^ LENGTH('a)" by simp
  have "unat (r mod ?g) + unat LOW < 2 ^ LENGTH('a)"
    using m g lt H by linarith
  then have s: "unat (r mod ?g + LOW) = unat (r mod ?g) + unat LOW"
    by (simp only: unat_add_lem)
  show ?thesis
    unfolding word_le_nat_alt word_less_nat_alt s using m g lt by linarith
qed

lemma residue_shift:
  fixes LOW HIGH a r :: "'a::len word"
  shows "r mod (HIGH - LOW) + LOW = a \<longleftrightarrow> r mod (HIGH - LOW) = a - LOW"
  by auto

text \<open>
  Claim C2.  For a window \<open>LOW < HIGH\<close> of any native width \<open>W\<close>:
  every address that \<open>get_random_address\<close> returns lies in \<open>[LOW, HIGH)\<close>;
  the threshold \<open>min = (-range) mod range\<close>, computed with wrap-around, is
  \<open>2^W mod range\<close>; the accepted raw values \<open>[min, 2^W)\<close> are a whole
  number of buckets of \<open>range\<close> values; and every address of the window is
  the image of exactly \<open>(2^W - min) div range\<close> accepted raw values, the same
  number for each address, so that uniformly distributed raw draws give
  equally probable addresses whether or not \<open>range\<close> divides \<open>2^W\<close>.  The
  returned address is the image of the first accepted draw.
\<close>

theorem get_random_address_unbiased:
  fixes LOW HIGH :: "'a::len word"
  assumes "LOW < HIGH"
  shows "(\<forall>draws a. get_random_address LOW HIGH draws = Some a \<longrightarrow> LOW \<le> a \<and> a < HIGH)
       \<and> unat (min_acceptable (HIGH - LOW)) = 2 ^ LENGTH('a) mod unat (HIGH - LOW)
       \<and> unat (HIGH - LOW) dvd 2 ^ LENGTH('a) - unat (min_acceptable (HIGH - LOW))
       \<and> (\<forall>a. LOW \<le> a \<and> a < HIGH \<longrightarrow>
             card {r. min_acceptable (HIGH - LOW) \<le> r \<and> r mod (HIGH - LOW) + LOW = a}
               = (2 ^ LENGTH('a) - unat (min_acceptable (HIGH - LOW))) div unat (HIGH - LOW))
       \<and> (\<forall>draws. get_random_address LOW HIGH draws =
             (case dropWhile (\<lambda>r. r < min_acceptable (HIGH - LOW)) draws of
                [] \<Rightarrow> None
              | r # _ \<Rightarrow> Some (r mod (HIGH - LOW) + LOW)))"
proof -
  let ?g = "HIGH - LOW"
  have g0: "?g \<noteq> 0" using assms by auto
  have char: "get_random_address LOW HIGH draws =
             (case dropWhile (\<lambda>r. r < min_acceptable ?g) draws of
                [] \<Rightarrow> None
              | r # _ \<Rightarrow> Some (r mod ?g + LOW))" for draws
    unfolding get_random_address_def Let_def by (rule accept_loop_dropWhile)
  have inwin: "LOW \<le> a \<and> a < HIGH" if "get_random_address LOW HIGH draws = Some a" for draws a
    using that mapped_in_window[OF assms] unfolding char by (auto split: list.splits)
  have M: "unat (min_acceptable ?g) = 2 ^ LENGTH('a) mod unat ?g"
    unfolding min_acceptable_def by (rule unat_neg_mod[OF g0])
  have D: "unat ?g dvd 2 ^ LENGTH('a) - unat (min_acceptable ?g)"
    unfolding M by (simp add: dvd_minus_mod)
  have C: "card {r. min_acceptable ?g \<le> r \<and> r mod ?g + LOW = a}
               = (2 ^ LENGTH('a) - unat (min_acceptable ?g)) div unat ?g"
    if "LOW \<le> a \<and> a < HIGH" for a
  proof -
    have "unat (a - LOW) = unat a - unat LOW" using that by (simp add: unat_sub)
    moreover have "unat ?g = unat HIGH - unat LOW" using assms by (simp add: unat_sub)
    moreover have "unat a < unat HIGH" "unat LOW \<le> unat a"
      using that by (simp_all add: word_less_nat_alt word_le_nat_alt)
    ultimately have k: "a - LOW < ?g" unfolding word_less_nat_alt by linarith
    show ?thesis unfolding residue_shift by (rule accepted_card[OF k])
  qed
  show ?thesis using inwin M D C char by blast
qed

theorem get_random_address_unbiased_witness:
  "RAND_ADDR_LOW_arm < RAND_ADDR_HIGH_arm
   \<and> get_random_address RAND_ADDR_LOW_arm RAND_ADDR_HIGH_arm [0x3ffffff, 0xffffffff]
       = Some 0xb3ffffff
   \<and> unat (min_acceptable (RAND_ADDR_HIGH_arm - RAND_ADDR_LOW_arm)) = 2 ^ 32 mod 100663296
   \<and> card {r. min_acceptable (RAND_ADDR_HIGH_arm - RAND_ADDR_LOW_arm) \<le> r
             \<and> r mod (RAND_ADDR_HIGH_arm - RAND_ADDR_LOW_arm) + RAND_ADDR_LOW_arm = 0xb3ffffff}
       = 42"
proof -
  have lt: "RAND_ADDR_LOW_arm < RAND_ADDR_HIGH_arm"
    by (simp add: RAND_ADDR_LOW_arm_def RAND_ADDR_HIGH_arm_def)
  have m: "min_acceptable (0x6000000 :: 32 word) = 0x4000000"
    by (simp add: min_acceptable_def)
  have g: "RAND_ADDR_HIGH_arm - RAND_ADDR_LOW_arm = 0x6000000"
    by (simp add: RAND_ADDR_HIGH_arm_def RAND_ADDR_LOW_arm_def)
  have a: "RAND_ADDR_LOW_arm \<le> 0xb3ffffff \<and> 0xb3ffffff < RAND_ADDR_HIGH_arm"
    by (simp add: RAND_ADDR_HIGH_arm_def RAND_ADDR_LOW_arm_def)
  have e: "get_random_address RAND_ADDR_LOW_arm RAND_ADDR_HIGH_arm [0x3ffffff, 0xffffffff]
       = Some 0xb3ffffff"
    by (simp add: get_random_address_def min_acceptable_def
        RAND_ADDR_HIGH_arm_def RAND_ADDR_LOW_arm_def)
  from get_random_address_unbiased[OF lt]
  have c: "card {r. min_acceptable (RAND_ADDR_HIGH_arm - RAND_ADDR_LOW_arm) \<le> r
             \<and> r mod (RAND_ADDR_HIGH_arm - RAND_ADDR_LOW_arm) + RAND_ADDR_LOW_arm = 0xb3ffffff}
       = (2 ^ 32 - unat (min_acceptable (RAND_ADDR_HIGH_arm - RAND_ADDR_LOW_arm)))
          div unat (RAND_ADDR_HIGH_arm - RAND_ADDR_LOW_arm)"
    and u: "unat (min_acceptable (RAND_ADDR_HIGH_arm - RAND_ADDR_LOW_arm))
       = 2 ^ 32 mod unat (RAND_ADDR_HIGH_arm - RAND_ADDR_LOW_arm)"
    using a by simp_all
  have "(2 ^ 32 - unat (0x4000000 :: 32 word)) div unat (0x6000000 :: 32 word) = 42"
    by simp
  with c have c': "card {r. min_acceptable (RAND_ADDR_HIGH_arm - RAND_ADDR_LOW_arm) \<le> r
             \<and> r mod (RAND_ADDR_HIGH_arm - RAND_ADDR_LOW_arm) + RAND_ADDR_LOW_arm = 0xb3ffffff}
       = 42"
    unfolding g m by simp
  have u': "unat (min_acceptable (RAND_ADDR_HIGH_arm - RAND_ADDR_LOW_arm)) = 2 ^ 32 mod 100663296"
    using u unfolding g by simp
  show ?thesis using lt e u' c' by blast
qed

section \<open>Properties of the POT index map\<close>












section \<open>Properties of the rando map: allocation and priorities\<close>

lemmas rando_eval =
  after_init_def rando_map_init_def alloc_map_page_def boot_def PAGE_SIZE_def
  sizeof_RandoMapNode_def sizeof_RandoMapHeader_def kMapVersion_def nullptr_def
  rando_map_add_def alloc_node_def arc4random_uniform_def min_acceptable_def UINT32_MAX_def
  Let_def
  rando_map_delete_def zero_node_def rotate_left_son_def rotate_right_son_def
  map_tree_insert_node.simps map_tree_delete_node.simps

lemma after_init: "rando_map_init (Some 0x10000) boot = Inr after_init"
  by (simp add: after_init_def rando_map_init_def alloc_map_page_def)

subsection \<open>Insertion rewrites links only\<close>

definition same_content :: "RandoMapNode \<Rightarrow> RandoMapNode \<Rightarrow> bool" where
  "same_content x y \<longleftrightarrow>
     div_start x = div_start y \<and> div_end x = div_end y \<and> undiv_start x = undiv_start y \<and>
     undiv_vaddr x = undiv_vaddr y \<and> num_funcs x = num_funcs y \<and> funcs x = funcs y \<and>
     prio x = prio y"

definition links_only :: "rando_map \<Rightarrow> rando_map \<Rightarrow> bool" where
  "links_only s s' \<longleftrightarrow>
     current_page s' = current_page s \<and> free_list s' = free_list s \<and> version s' = version s \<and>
     (\<forall>a. same_content (mem s' a) (mem s a))"

lemma links_only_trans: "links_only s s1 \<Longrightarrow> links_only s1 s2 \<Longrightarrow> links_only s s2"
  by (simp add: links_only_def same_content_def)

lemma links_only_wr: "links_only s (wr ptr v s)"
  by (cases ptr) (simp_all add: links_only_def same_content_def)

lemma links_only_rotate_left_son: "links_only s (snd (rotate_left_son ptr s))"
  unfolding rotate_left_son_def Let_def snd_conv
  by (blast intro: links_only_trans links_only_wr)

lemma links_only_rotate_right_son: "links_only s (snd (rotate_right_son ptr s))"
  unfolding rotate_right_son_def Let_def snd_conv
  by (blast intro: links_only_trans links_only_wr)

lemma insert_links_only_aux:
  assumes "map_tree_insert_node node ptr s = Some r"
  shows "\<forall>s'. r = Inr s' \<longrightarrow> links_only s s'"
proof (rule map_tree_insert_node.raw_induct[OF _ assms])
  fix f :: "addr \<Rightarrow> loc \<Rightarrow> rando_map \<Rightarrow> (fatal + rando_map) option"
  fix node ptr s r
  assume IH: "\<And>node ptr s r. f node ptr s = Some r \<Longrightarrow> \<forall>s'. r = Inr s' \<longrightarrow> links_only s s'"
  assume body: "(let curr = rd ptr s in
      if curr = nullptr then Some (Inr (wr ptr node s))
      else if div_start (mem s node) < div_start (mem s curr) then
        Option.bind (f node (LeftOf curr) s) (\<lambda>res.
          case res of
            Inl e \<Rightarrow> Some (Inl e)
          | Inr s1 \<Rightarrow>
              if prio (mem s1 (left (mem s1 curr))) > prio (mem s1 curr)
              then Some (Inr (snd (rotate_left_son ptr s1)))
              else Some (Inr s1))
      else if div_start (mem s node) \<ge> div_end (mem s curr) then
        Option.bind (f node (RightOf curr) s) (\<lambda>res.
          case res of
            Inl e \<Rightarrow> Some (Inl e)
          | Inr s1 \<Rightarrow>
              if prio (mem s1 (right (mem s1 curr))) > prio (mem s1 curr)
              then Some (Inr (snd (rotate_right_son ptr s1)))
              else Some (Inr s1))
      else Some (Inl (Fatal ''overlapping rando map nodes''))) = Some r"
  show "\<forall>s'. r = Inr s' \<longrightarrow> links_only s s'"
    using body IH
    by (auto simp: Let_def links_only_wr split: if_splits sum.splits Option.bind_splits)
       (blast intro: links_only_trans links_only_rotate_left_son links_only_rotate_right_son)+
qed

lemma insert_links_only:
  "map_tree_insert_node node ptr s = Some (Inr s') \<Longrightarrow> links_only s s'"
  using insert_links_only_aux by blast

subsection \<open>Arena storage consumed by an insert\<close>

text \<open>
  Claim C6 describes the allocator as the specification does; the code
  advances the bump pointer once more in \<open>rando_map_add\<close>.  From the state
  after initialisation: the first insert takes the node at the bump pointer
  and leaves the pointer two nodes further; after a delete has put that node
  on the free list, the next insert pops it and still advances the bump
  pointer by one node.
\<close>

theorem rando_map_add_bumps_twice:
  "\<exists>s1 s2 s3.
     next_p (current_page after_init) = 0x10010 \<and> free_list after_init = nullptr \<and>
     rando_map_add None [5] 0x2000 0x400 0xA000 0xA000 3 0x7000 after_init = Some (Inr s1) \<and>
     root s1 = 0x10010 \<and>
     next_p (current_page s1) = next_p (current_page after_init) + 2 * sizeof_RandoMapNode \<and>
     rando_map_delete 0x2000 s1 = Some (Inr s2) \<and>
     free_list s2 = 0x10010 \<and> next_p (current_page s2) = next_p (current_page s1) \<and>
     rando_map_add None [5] 0x2000 0x400 0xA000 0xA000 3 0x7000 s2 = Some (Inr s3) \<and>
     root s3 = 0x10010 \<and> free_list s3 = nullptr \<and>
     next_p (current_page s3) = next_p (current_page s2) + sizeof_RandoMapNode"
  by (simp add: rando_eval)

subsection \<open>An overlapping insert that is not rejected\<close>

text \<open>
  Claim C1 holds of the intended check, not of the code: the test compares
  only the start of the new interval with the interval of the visited node.
  After \<open>[0x2000, 0x2400)\<close> is registered, the insert of \<open>[0x1000, 0x3000)\<close>,
  which encloses it, returns normally and links the new node as the left
  child of the old one.
\<close>

theorem rando_map_add_accepts_enclosing_interval:
  "\<exists>s1 s2.
     rando_map_add None [5] 0x2000 0x400 0xA000 0xA000 3 0x7000 after_init = Some (Inr s1) \<and>
     rando_map_add None [4] 0x1000 0x2000 0x9000 0x9000 2 0x6000 s1 = Some (Inr s2) \<and>
     root s2 = 0x10010 \<and> left (mem s2 0x10010) = 0x100a0 \<and>
     div_start (mem s2 0x10010) = 0x2000 \<and> div_end (mem s2 0x10010) = 0x2400 \<and>
     div_start (mem s2 0x100a0) = 0x1000 \<and> div_end (mem s2 0x100a0) = 0x3000"
  by (simp add: rando_eval)

section \<open>The functions on memory compute the functions on shapes\<close>

lemma node_eq_iff:
  "n = n' \<longleftrightarrow> same_content n n' \<and> left n = left n' \<and> right n = right n'"
  by (cases n, cases n') (auto simp: same_content_def)

lemma same_content_simps [simp]:
  "same_content n n"
  "same_content (n\<lparr>left := x\<rparr>) n' = same_content n n'"
  "same_content (n\<lparr>right := y\<rparr>) n' = same_content n n'"
  "same_content n (n'\<lparr>left := x\<rparr>) = same_content n n'"
  "same_content n (n'\<lparr>right := y\<rparr>) = same_content n n'"
  by (simp_all add: same_content_def)

lemma link_notin [simp]: "a \<notin> nodes t \<Longrightarrow> link t m a = m a"
  by (induction t) auto

lemma link_root [simp]: "link (Nd l x r) m x = (m x)\<lparr>left := rootp l, right := rootp r\<rparr>"
  by simp

lemma link_Lf [simp]: "link Lf m = m"
  by (rule ext) simp

lemma link_id: "linked m t \<Longrightarrow> link t m a = m a"
  by (induction t) auto

lemma link_id_fun: "linked m t \<Longrightarrow> link t m = m"
  by (rule ext) (rule link_id)

lemma same_content_link [simp]:
  "same_content (link t m a) n = same_content (m a) n"
  "same_content n (link t m a) = same_content n (m a)"
  by (induction t) (auto simp: same_content_def)

lemmas link_Nd = link.simps(2)

declare link.simps [simp del]

lemma linked_cong:
  "(\<And>a. a \<in> nodes t \<Longrightarrow> left (m' a) = left (m a) \<and> right (m' a) = right (m a)) \<Longrightarrow>
   linked m' t = linked m t"
  by (induction t) auto

lemma linked_link: "wf_shape t \<Longrightarrow> linked (link t m) t"
proof (induction t)
  case Lf
  then show ?case by simp
next
  case (Nd l x r)
  have "linked (link (Nd l x r) m) l = linked (link l m) l"
    using Nd.prems by (intro linked_cong) (auto simp: link_Nd)
  moreover have "linked (link (Nd l x r) m) r = linked (link r m) r"
    using Nd.prems by (intro linked_cong) (auto simp: link_Nd)
  ultimately show ?case using Nd by simp
qed

lemma rando_map_eqI:
  "mem s = mem s' \<Longrightarrow> root s = root s' \<Longrightarrow> version s = version s' \<Longrightarrow>
   current_page s = current_page s' \<Longrightarrow> free_list s = free_list s' \<Longrightarrow> s = (s'::rando_map)"
  by simp

lemma relink_simps [simp]:
  "version (relink ptr t s) = version s"
  "current_page (relink ptr t s) = current_page s"
  "free_list (relink ptr t s) = free_list s"
  by (cases ptr; simp add: relink_def)+

lemma relink_Root [simp]:
  "mem (relink Root t s) = link t (mem s)"
  "root (relink Root t s) = rootp t"
  by (simp_all add: relink_def)

lemma relink_LeftOf [simp]:
  "mem (relink (LeftOf p) t s) = (link t (mem s))(p := (link t (mem s) p)\<lparr>left := rootp t\<rparr>)"
  "root (relink (LeftOf p) t s) = root s"
  by (simp_all add: relink_def)

lemma relink_RightOf [simp]:
  "mem (relink (RightOf p) t s) = (link t (mem s))(p := (link t (mem s) p)\<lparr>right := rootp t\<rparr>)"
  "root (relink (RightOf p) t s) = root s"
  by (simp_all add: relink_def)

text \<open>Relinking the subtree below a node is relinking the tree at the node.\<close>

lemma relink_left_child:
  assumes "rd ptr s = c" "right (mem s c) = rootp r" "linked (mem s) r"
    "wf_shape (Nd l' c r)" "loc_free ptr (nodes (Nd l' c r))"
  shows "relink (LeftOf c) l' s = relink ptr (Nd l' c r) s"
proof (rule rando_map_eqI)
  show "mem (relink (LeftOf c) l' s) = mem (relink ptr (Nd l' c r) s)"
  proof (rule ext)
    fix a
    show "mem (relink (LeftOf c) l' s) a = mem (relink ptr (Nd l' c r) s) a"
      using assms by (cases ptr) (auto simp: tree_at_def link_id link_Nd node_eq_iff)
  qed
  show "root (relink (LeftOf c) l' s) = root (relink ptr (Nd l' c r) s)"
    using assms by (cases ptr) (simp_all add: tree_at_def)
qed simp_all

lemma relink_right_child:
  assumes "rd ptr s = c" "left (mem s c) = rootp l" "linked (mem s) l"
    "wf_shape (Nd l c r')" "loc_free ptr (nodes (Nd l c r'))"
  shows "relink (RightOf c) r' s = relink ptr (Nd l c r') s"
proof (rule rando_map_eqI)
  show "mem (relink (RightOf c) r' s) = mem (relink ptr (Nd l c r') s)"
  proof (rule ext)
    fix a
    show "mem (relink (RightOf c) r' s) a = mem (relink ptr (Nd l c r') s) a"
      using assms by (cases ptr) (auto simp: tree_at_def link_id link_Nd node_eq_iff)
  qed
  show "root (relink (RightOf c) r' s) = root (relink ptr (Nd l c r') s)"
    using assms by (cases ptr) (simp_all add: tree_at_def)
qed simp_all

lemma mem_relink_in:
  "loc_free ptr (nodes t) \<Longrightarrow> a \<in> nodes t \<Longrightarrow> mem (relink ptr t s) a = link t (mem s) a"
  by (cases ptr) auto

lemma same_content_relink [simp]:
  "same_content (mem (relink ptr t s) a) n = same_content (mem s a) n"
  by (cases ptr) auto

lemma content_relink [simp]:
  "prio (mem (relink ptr t s) a) = prio (mem s a)"
  "div_start (mem (relink ptr t s) a) = div_start (mem s a)"
  "div_end (mem (relink ptr t s) a) = div_end (mem s a)"
  using same_content_relink[of ptr t s a "mem s a"]
  by (simp_all add: same_content_def del: same_content_relink)

lemma rd_relink [simp]: "loc_free ptr (nodes t) \<Longrightarrow> rd ptr (relink ptr t s) = rootp t"
  by (cases ptr) simp_all

lemma rotate_left_son_relink:
  assumes "wf_shape (Nd (Nd ll sn lr) c r)" "loc_free ptr (nodes (Nd (Nd ll sn lr) c r))"
  shows "rotate_left_son ptr (relink ptr (Nd (Nd ll sn lr) c r) s)
           = (sn, relink ptr (Nd ll sn (Nd lr c r)) s)"
proof -
  let ?T = "Nd (Nd ll sn lr) c r"
  let ?s1 = "relink ptr ?T s"
  have c: "rd ptr ?s1 = c" using assms(2) by simp
  have mc: "mem ?s1 c = (mem s c)\<lparr>left := sn, right := rootp r\<rparr>"
    using assms by (simp add: mem_relink_in)
  have msn: "mem ?s1 sn = (mem s sn)\<lparr>left := rootp ll, right := rootp lr\<rparr>"
    using assms by (auto simp: mem_relink_in link_Nd)
  have "snd (rotate_left_son ptr ?s1) = relink ptr (Nd ll sn (Nd lr c r)) s"
  proof (rule rando_map_eqI)
    show "mem (snd (rotate_left_son ptr ?s1)) = mem (relink ptr (Nd ll sn (Nd lr c r)) s)"
    proof (rule ext)
      fix a
      show "mem (snd (rotate_left_son ptr ?s1)) a = mem (relink ptr (Nd ll sn (Nd lr c r)) s) a"
        using assms
        by (cases ptr) (auto simp: rotate_left_son_def Let_def link_Nd node_eq_iff)
    qed
    show "root (snd (rotate_left_son ptr ?s1)) = root (relink ptr (Nd ll sn (Nd lr c r)) s)"
      using assms by (cases ptr) (auto simp: rotate_left_son_def Let_def link_Nd)
  qed (cases ptr; simp add: rotate_left_son_def Let_def)+
  moreover have "fst (rotate_left_son ptr ?s1) = sn"
    using c mc by (simp add: rotate_left_son_def Let_def)
  ultimately show ?thesis by (simp add: prod_eq_iff)
qed

lemma rotate_right_son_relink:
  assumes "wf_shape (Nd l c (Nd rl sn rr))" "loc_free ptr (nodes (Nd l c (Nd rl sn rr)))"
  shows "rotate_right_son ptr (relink ptr (Nd l c (Nd rl sn rr)) s)
           = (sn, relink ptr (Nd (Nd l c rl) sn rr) s)"
proof -
  let ?T = "Nd l c (Nd rl sn rr)"
  let ?s1 = "relink ptr ?T s"
  have c: "rd ptr ?s1 = c" using assms(2) by simp
  have mc: "mem ?s1 c = (mem s c)\<lparr>left := rootp l, right := sn\<rparr>"
    using assms by (simp add: mem_relink_in)
  have msn: "mem ?s1 sn = (mem s sn)\<lparr>left := rootp rl, right := rootp rr\<rparr>"
    using assms by (auto simp: mem_relink_in link_Nd)
  have "snd (rotate_right_son ptr ?s1) = relink ptr (Nd (Nd l c rl) sn rr) s"
  proof (rule rando_map_eqI)
    show "mem (snd (rotate_right_son ptr ?s1)) = mem (relink ptr (Nd (Nd l c rl) sn rr) s)"
    proof (rule ext)
      fix a
      show "mem (snd (rotate_right_son ptr ?s1)) a = mem (relink ptr (Nd (Nd l c rl) sn rr) s) a"
        using assms
        by (cases ptr) (auto simp: rotate_right_son_def Let_def link_Nd node_eq_iff)
    qed
    show "root (snd (rotate_right_son ptr ?s1)) = root (relink ptr (Nd (Nd l c rl) sn rr) s)"
      using assms by (cases ptr) (auto simp: rotate_right_son_def Let_def link_Nd)
  qed (cases ptr; simp add: rotate_right_son_def Let_def)+
  moreover have "fst (rotate_right_son ptr ?s1) = sn"
    using c mc by (simp add: rotate_right_son_def Let_def)
  ultimately show ?thesis by (simp add: prod_eq_iff)
qed

lemma nodes_rot_left [simp]: "nodes (rot_left t) = nodes t"
  by (induction t rule: rot_left.induct) auto

lemma nodes_rot_right [simp]: "nodes (rot_right t) = nodes t"
  by (induction t rule: rot_right.induct) auto

lemma inorder_rot_left [simp]: "inorder (rot_left t) = inorder t"
  by (induction t rule: rot_left.induct) auto

lemma inorder_rot_right [simp]: "inorder (rot_right t) = inorder t"
  by (induction t rule: rot_right.induct) auto

lemma wf_shape_rot_left [simp]: "wf_shape (rot_left t) = wf_shape t"
  by (induction t rule: rot_left.induct) auto

lemma wf_shape_rot_right [simp]: "wf_shape (rot_right t) = wf_shape t"
  by (induction t rule: rot_right.induct) auto

lemma ins_not_Lf: "ins m n t \<noteq> Inr Lf"
  by (induction t) (auto split: sum.splits ptree.splits elim: rot_left.elims rot_right.elims)

lemma nodes_ins: "ins m n t = Inr t' \<Longrightarrow> nodes t' = insert n (nodes t)"
  by (induction t arbitrary: t') (auto split: if_splits sum.splits)

lemma wf_shape_ins:
  "ins m n t = Inr t' \<Longrightarrow> wf_shape t \<Longrightarrow> n \<notin> nodes t \<Longrightarrow> n \<noteq> nullptr \<Longrightarrow> wf_shape t'"
proof (induction t arbitrary: t')
  case Lf
  then show ?case by auto
next
  case (Nd l c r)
  show ?case
  proof (cases "div_start (m n) < div_start (m c)")
    case True
    with Nd.prems(1) obtain l' where l': "ins m n l = Inr l'"
      and t': "t' = (if prio (m (rootp l')) > prio (m c) then rot_left (Nd l' c r) else Nd l' c r)"
      by (auto split: sum.splits)
    have "wf_shape l'" using Nd.IH(1)[OF l'] Nd.prems by simp
    moreover have "nodes l' = insert n (nodes l)" by (rule nodes_ins[OF l'])
    ultimately have "wf_shape (Nd l' c r)" using Nd.prems by auto
    then show ?thesis unfolding t' by simp
  next
    case False
    with Nd.prems(1) obtain r' where r': "ins m n r = Inr r'"
      and t': "t' = (if prio (m (rootp r')) > prio (m c) then rot_right (Nd l c r') else Nd l c r')"
      by (auto split: sum.splits if_splits)
    have "wf_shape r'" using Nd.IH(2)[OF r'] Nd.prems by simp
    moreover have "nodes r' = insert n (nodes r)" by (rule nodes_ins[OF r'])
    ultimately have "wf_shape (Nd l c r')" using Nd.prems by auto
    then show ?thesis unfolding t' by simp
  qed
qed

lemma ins_Lf_cases:
  "ins m n t = Inr t' \<Longrightarrow> \<exists>l x r. t' = Nd l x r"
  using ins_not_Lf[of m n t] by (cases t') auto

lemma insert_refines:
  assumes "tree_at s ptr t" "n \<notin> nodes t" "n \<noteq> nullptr"
    "left (mem s n) = nullptr" "right (mem s n) = nullptr"
    "loc_free ptr (insert n (nodes t))"
  shows "map_tree_insert_node n ptr s =
           Some (case ins (mem s) n t of Inl e \<Rightarrow> Inl e | Inr t' \<Rightarrow> Inr (relink ptr t' s))"
  using assms
proof (induction t arbitrary: ptr)
  case Lf
  have "wr ptr n s = relink ptr (Nd Lf n Lf) s"
  proof (rule rando_map_eqI)
    show "mem (wr ptr n s) = mem (relink ptr (Nd Lf n Lf) s)"
    proof (rule ext)
      fix a show "mem (wr ptr n s) a = mem (relink ptr (Nd Lf n Lf) s) a"
        using Lf.prems by (cases ptr) (auto simp: link_Nd node_eq_iff nullptr_def)
    qed
  qed (cases ptr; simp)+
  then show ?case
    using Lf.prems by (subst map_tree_insert_node.simps) (simp add: tree_at_def)
next
  case (Nd l c r)
  let ?m = "mem s"
  from Nd.prems have c: "rd ptr s = c" "c \<noteq> nullptr" and wf: "wf_shape (Nd l c r)"
    and lk: "linked ?m (Nd l c r)"
    by (simp_all add: tree_at_def)
  show ?case
  proof (cases "div_start (?m n) < div_start (?m c)")
    case True
    have tl: "tree_at s (LeftOf c) l" using lk wf by (simp add: tree_at_def)
    have rec: "map_tree_insert_node n (LeftOf c) s =
           Some (case ins ?m n l of Inl e \<Rightarrow> Inl e | Inr l' \<Rightarrow> Inr (relink (LeftOf c) l' s))"
      by (rule Nd.IH(1)[OF tl]) (use Nd.prems wf in auto)
    show ?thesis
    proof (cases "ins ?m n l")
      case (Inl e)
      then show ?thesis
        using rec c True by (subst map_tree_insert_node.simps) simp
    next
      case (Inr l')
      have nl': "nodes l' = insert n (nodes l)" by (rule nodes_ins[OF Inr])
      have wfl': "wf_shape l'" using wf_shape_ins[OF Inr] wf Nd.prems by simp
      have wfT: "wf_shape (Nd l' c r)" using wf wfl' nl' Nd.prems by auto
      have lf: "loc_free ptr (nodes (Nd l' c r))"
        using Nd.prems(6) nl' by (cases ptr) auto
      let ?s1 = "relink ptr (Nd l' c r) s"
      have s1: "relink (LeftOf c) l' s = ?s1"
        by (rule relink_left_child[OF c(1) _ _ wfT lf]) (use lk in simp_all)
      have lc: "left (mem ?s1 c) = rootp l'"
        using lf by (simp add: mem_relink_in)
      obtain ll sn lr where l'eq: "l' = Nd ll sn lr" using ins_Lf_cases[OF Inr] by blast
      have rot: "snd (rotate_left_son ptr ?s1) = relink ptr (rot_left (Nd l' c r)) s"
        using rotate_left_son_relink[of ll sn lr c r ptr s] wfT lf unfolding l'eq by simp
      show ?thesis
        using rec c True Inr
        by (subst map_tree_insert_node.simps) (simp add: s1 lc rot)
    qed
  next
    case False
    show ?thesis
    proof (cases "div_start (?m n) \<ge> div_end (?m c)")
      case ge: True
      have tr: "tree_at s (RightOf c) r" using lk wf by (simp add: tree_at_def)
      have rec: "map_tree_insert_node n (RightOf c) s =
           Some (case ins ?m n r of Inl e \<Rightarrow> Inl e | Inr r' \<Rightarrow> Inr (relink (RightOf c) r' s))"
        by (rule Nd.IH(2)[OF tr]) (use Nd.prems wf in auto)
      show ?thesis
      proof (cases "ins ?m n r")
        case (Inl e)
        then show ?thesis
          using rec c False ge by (subst map_tree_insert_node.simps) simp
      next
        case (Inr r')
        have nr': "nodes r' = insert n (nodes r)" by (rule nodes_ins[OF Inr])
        have wfr': "wf_shape r'" using wf_shape_ins[OF Inr] wf Nd.prems by simp
        have wfT: "wf_shape (Nd l c r')" using wf wfr' nr' Nd.prems by auto
        have lf: "loc_free ptr (nodes (Nd l c r'))"
          using Nd.prems(6) nr' by (cases ptr) auto
        let ?s1 = "relink ptr (Nd l c r') s"
        have s1: "relink (RightOf c) r' s = ?s1"
          by (rule relink_right_child[OF c(1) _ _ wfT lf]) (use lk in simp_all)
        have rc: "right (mem ?s1 c) = rootp r'"
          using lf by (simp add: mem_relink_in)
        obtain rl sn rr where r'eq: "r' = Nd rl sn rr" using ins_Lf_cases[OF Inr] by blast
        have rot: "snd (rotate_right_son ptr ?s1) = relink ptr (rot_right (Nd l c r')) s"
          using rotate_right_son_relink[of l c rl sn rr ptr s] wfT lf unfolding r'eq by simp
        show ?thesis
          using rec c False ge Inr
          by (subst map_tree_insert_node.simps) (simp add: s1 rc rot)
      qed
    next
      case lt: False
      then show ?thesis
        using c False by (subst map_tree_insert_node.simps) simp
    qed
  qed
qed

lemma link_lnk:
  "link t m a = (if a \<in> nodes t then (m a)\<lparr>left := fst (lnk t a), right := snd (lnk t a)\<rparr>
                 else m a)"
  by (induction t) (auto simp: link_Nd)

lemma wr_rd_id: "wr ptr (rd ptr s) s = s"
  by (cases ptr) simp_all

lemma relink_id: "tree_at s ptr t \<Longrightarrow> relink ptr t s = s"
  using wr_rd_id[of ptr s] by (simp add: relink_def tree_at_def link_id_fun)

lemma tree_at_relink:
  assumes "wf_shape t" "loc_free ptr (nodes t)"
  shows "tree_at (relink ptr t s) ptr t"
proof -
  have "linked (mem (relink ptr t s)) t = linked (link t (mem s)) t"
    using assms(2) by (intro linked_cong) (simp add: mem_relink_in)
  then show ?thesis
    using assms by (simp add: tree_at_def linked_link)
qed

lemma nodes_del_root:
  "nodes (del_root m (Nd l c r)) = nodes l \<union> nodes r"
  by (induction m "Nd l c r" arbitrary: l r rule: del_root.induct) auto

lemma inorder_del_root:
  "inorder (del_root m (Nd l c r)) = inorder l @ inorder r"
  by (induction m "Nd l c r" arbitrary: l r rule: del_root.induct) auto

lemma wf_shape_del_root:
  "wf_shape (Nd l c r) \<Longrightarrow> wf_shape (del_root m (Nd l c r))"
proof (induction m "Nd l c r" arbitrary: l r rule: del_root.induct)
  case (4 m ll a lr rl b rr)
  show ?case
  proof (cases "prio (m a) > prio (m b)")
    case True
    have "wf_shape (del_root m (Nd lr c (Nd rl b rr)))"
      using 4 True by auto
    then show ?thesis
      using True "4.prems" by (auto simp: nodes_del_root)
  next
    case False
    have "wf_shape (del_root m (Nd (Nd ll a lr) c rl))"
      using 4 False by auto
    then show ?thesis
      using False "4.prems" by (auto simp: nodes_del_root)
  qed
qed auto

lemma del_root_cong:
  "(\<And>a. a \<in> nodes l \<union> nodes r \<Longrightarrow> prio (m' a) = prio (m a)) \<Longrightarrow>
   del_root m' (Nd l c r) = del_root m (Nd l c r)"
proof (induction m "Nd l c r" arbitrary: l r rule: del_root.induct)
  case (4 m ll a lr rl b rr)
  have ab: "prio (m' a) = prio (m a)" "prio (m' b) = prio (m b)"
    using "4.prems" by auto
  show ?case
  proof (cases "prio (m a) > prio (m b)")
    case True
    have "del_root m' (Nd lr c (Nd rl b rr)) = del_root m (Nd lr c (Nd rl b rr))"
      using "4.hyps"(1)[OF True] "4.prems" by auto
    then show ?thesis using True ab by simp
  next
    case False
    have "del_root m' (Nd (Nd ll a lr) c rl) = del_root m (Nd (Nd ll a lr) c rl)"
      using "4.hyps"(2)[OF False] "4.prems" by auto
    then show ?thesis using False ab by simp
  qed
qed auto

lemma unlink_simps [simp]:
  "mem (unlink x lx rx s) = (mem s)(x := (mem s x)\<lparr>prio := 0, left := lx, right := rx\<rparr>)"
  "root (unlink x lx rx s) = root s"
  "version (unlink x lx rx s) = version s"
  "current_page (unlink x lx rx s) = current_page s"
  "free_list (unlink x lx rx s) = free_list s"
  by (simp_all add: unlink_def)

lemma lnk_linked: "linked m t \<Longrightarrow> a \<in> nodes t \<Longrightarrow> lnk t a = (left (m a), right (m a))"
  by (induction t) auto

lemma zap_prio_simps [simp]:
  "mem (zap_prio c s) = (mem s)(c := (mem s c)\<lparr>prio := 0\<rparr>)"
  "root (zap_prio c s) = root s"
  "version (zap_prio c s) = version s"
  "current_page (zap_prio c s) = current_page s"
  "free_list (zap_prio c s) = free_list s"
  by (simp_all add: zap_prio_def)

lemma tree_at_zap_prio: "tree_at (zap_prio c s) ptr t = tree_at s ptr t"
proof -
  have "linked (mem (zap_prio c s)) t = linked (mem s) t"
    by (rule linked_cong) simp
  moreover have "rd ptr (zap_prio c s) = rd ptr s" by (cases ptr) simp_all
  ultimately show ?thesis by (simp add: tree_at_def)
qed

lemma delete_splice_right:
  assumes "tree_at s ptr (Nd Lf c r)" "loc_free ptr (nodes (Nd Lf c r))"
  shows "wr ptr (rootp r) (zap_prio c s) = relink ptr r (unlink c nullptr (rootp r) s)"
proof (rule rando_map_eqI)
  let ?L = "wr ptr (rootp r) (zap_prio c s)"
  let ?R = "relink ptr r (unlink c nullptr (rootp r) s)"
  show "mem ?L = mem ?R"
  proof (rule ext)
    fix a
    have "linked (mem s) r" using assms by (simp add: tree_at_def)
    note lnk_linked[OF this]
    then show "mem ?L a = mem ?R a"
      using assms
      by (cases ptr) (auto simp: tree_at_def link_lnk node_eq_iff same_content_def)
  qed
qed (cases ptr; simp)+

lemma delete_splice_left:
  assumes "tree_at s ptr (Nd l c Lf)" "loc_free ptr (nodes (Nd l c Lf))"
  shows "wr ptr (rootp l) (zap_prio c s) = relink ptr l (unlink c (rootp l) nullptr s)"
proof (rule rando_map_eqI)
  let ?L = "wr ptr (rootp l) (zap_prio c s)"
  let ?R = "relink ptr l (unlink c (rootp l) nullptr s)"
  show "mem ?L = mem ?R"
  proof (rule ext)
    fix a
    have "linked (mem s) l" using assms by (simp add: tree_at_def)
    note lnk_linked[OF this]
    then show "mem ?L a = mem ?R a"
      using assms
      by (cases ptr) (auto simp: tree_at_def link_lnk node_eq_iff same_content_def)
  qed
qed (cases ptr; simp)+

lemma delete_rotate_left_state:
  assumes "wf_shape (Nd (Nd ll a lr) c r)" "loc_free ptr (nodes (Nd (Nd ll a lr) c r))"
    and "nodes D = nodes lr \<union> nodes r"
  shows "relink (RightOf a) D (unlink c lx rx (relink ptr (Nd ll a (Nd lr c r)) (zap_prio c s)))
         = relink ptr (Nd ll a D) (unlink c lx rx s)"
proof (rule rando_map_eqI)
  let ?L = "relink (RightOf a) D (unlink c lx rx (relink ptr (Nd ll a (Nd lr c r)) (zap_prio c s)))"
  let ?R = "relink ptr (Nd ll a D) (unlink c lx rx s)"
  show "mem ?L = mem ?R"
  proof (rule ext)
    fix p
    show "mem ?L p = mem ?R p"
      using assms
      by (cases ptr) (auto simp: link_lnk node_eq_iff same_content_def)
  qed
qed (cases ptr; simp)+

lemma delete_rotate_right_state:
  assumes "wf_shape (Nd l c (Nd rl b rr))" "loc_free ptr (nodes (Nd l c (Nd rl b rr)))"
    and "nodes D = nodes l \<union> nodes rl"
  shows "relink (LeftOf b) D (unlink c lx rx (relink ptr (Nd (Nd l c rl) b rr) (zap_prio c s)))
         = relink ptr (Nd D b rr) (unlink c lx rx s)"
proof (rule rando_map_eqI)
  let ?L = "relink (LeftOf b) D (unlink c lx rx (relink ptr (Nd (Nd l c rl) b rr) (zap_prio c s)))"
  let ?R = "relink ptr (Nd D b rr) (unlink c lx rx s)"
  show "mem ?L = mem ?R"
  proof (rule ext)
    fix p
    show "mem ?L p = mem ?R p"
      using assms
      by (cases ptr) (auto simp: link_lnk node_eq_iff same_content_def)
  qed
qed (cases ptr; simp)+

lemma delete_root_refines:
  assumes "tree_at s ptr (Nd l c r)" "loc_free ptr (nodes (Nd l c r))"
    "\<not> k < div_start (mem s c)" "\<not> k \<ge> div_end (mem s c)"
  shows "\<exists>lx rx. map_tree_delete_node k ptr s =
           Some (Inr (c, relink ptr (del_root (mem s) (Nd l c r)) (unlink c lx rx s)))"
  using assms
proof (induction "size l + size r" arbitrary: l r s ptr rule: less_induct)
  case less
  let ?m = "mem s"
  let ?s1 = "zap_prio c s"
  from less.prems have c: "rd ptr s = c" "c \<noteq> nullptr" and wf: "wf_shape (Nd l c r)"
    and lk: "linked ?m (Nd l c r)"
    by (simp_all add: tree_at_def)
  have unf: "map_tree_delete_node k ptr s =
         (if left (mem ?s1 c) = nullptr then
           Some (Inr (c, wr ptr (right (mem ?s1 c)) ?s1))
         else if right (mem ?s1 c) = nullptr then
           Some (Inr (c, wr ptr (left (mem ?s1 c)) ?s1))
         else if prio (mem ?s1 (left (mem ?s1 c))) > prio (mem ?s1 (right (mem ?s1 c))) then
           (case rotate_left_son ptr ?s1 of (son, s2) \<Rightarrow>
              map_tree_delete_node k (RightOf son) s2)
         else
           (case rotate_right_son ptr ?s1 of (son, s2) \<Rightarrow>
              map_tree_delete_node k (LeftOf son) s2))"
    using c less.prems(3,4)
    by (subst map_tree_delete_node.simps) (simp add: Let_def zap_prio_def)
  have lc: "left (mem ?s1 c) = rootp l" "right (mem ?s1 c) = rootp r"
    using lk by simp_all
  have t1: "tree_at ?s1 ptr (Nd l c r)"
    using less.prems(1) by (simp add: tree_at_zap_prio)
  show ?case
  proof (cases l)
    case Lf
    have "map_tree_delete_node k ptr s = Some (Inr (c, wr ptr (rootp r) ?s1))"
      using unf lc Lf by simp
    also have "wr ptr (rootp r) ?s1 = relink ptr r (unlink c nullptr (rootp r) s)"
      using delete_splice_right[of s ptr c r] less.prems(1,2) Lf by simp
    finally show ?thesis using Lf by auto
  next
    case l: (Nd ll a lr)
    then have a0: "rootp l \<noteq> nullptr" "a \<noteq> c" using wf by auto
    show ?thesis
    proof (cases r)
      case Lf
      have "map_tree_delete_node k ptr s = Some (Inr (c, wr ptr (rootp l) ?s1))"
        using unf lc Lf a0 by simp
      also have "wr ptr (rootp l) ?s1 = relink ptr l (unlink c (rootp l) nullptr s)"
        using delete_splice_left[of s ptr l c] less.prems(1,2) Lf by simp
      finally show ?thesis using Lf l by auto
    next
      case r: (Nd rl b rr)
      then have b0: "rootp r \<noteq> nullptr" "b \<noteq> c" using wf by auto
      have pa: "prio (mem ?s1 (rootp l)) = prio (?m a)" "prio (mem ?s1 (rootp r)) = prio (?m b)"
        using l r a0 b0 by simp_all
      show ?thesis
      proof (cases "prio (?m a) > prio (?m b)")
        case True
        let ?T = "Nd ll a (Nd lr c r)"
        let ?s2 = "relink ptr ?T ?s1"
        have rot: "rotate_left_son ptr ?s1 = (a, ?s2)"
          using rotate_left_son_relink[of ll a lr c r ptr ?s1] wf less.prems(2)
            relink_id[OF t1] unfolding l by simp
        have step: "map_tree_delete_node k ptr s = map_tree_delete_node k (RightOf a) ?s2"
          using unf lc a0 b0 pa True rot by simp
        have wfT: "wf_shape ?T" using wf unfolding l by auto
        have lfT: "loc_free ptr (nodes ?T)" using less.prems(2) unfolding l by (cases ptr) auto
        have tT: "tree_at ?s2 ptr ?T" by (rule tree_at_relink[OF wfT lfT])
        have sub: "tree_at ?s2 (RightOf a) (Nd lr c r)"
          using tT wfT by (simp add: tree_at_def)
        have lf2: "loc_free (RightOf a) (nodes (Nd lr c r))" using wfT by auto
        have k2: "\<not> k < div_start (mem ?s2 c)" "\<not> k \<ge> div_end (mem ?s2 c)"
          using less.prems(3,4) by simp_all
        have "size lr + size r < size l + size r" unfolding l by simp
        from less.hyps[OF this sub lf2 k2] obtain lx rx where
          rec: "map_tree_delete_node k (RightOf a) ?s2 =
             Some (Inr (c, relink (RightOf a) (del_root (mem ?s2) (Nd lr c r)) (unlink c lx rx ?s2)))"
          by blast
        let ?D = "del_root ?m (Nd lr c r)"
        have D: "del_root (mem ?s2) (Nd lr c r) = ?D"
          using wf unfolding l by (intro del_root_cong) auto
        have nD: "nodes ?D = nodes lr \<union> nodes r" by (rule nodes_del_root)
        have st: "relink (RightOf a) ?D (unlink c lx rx ?s2) = relink ptr (Nd ll a ?D) (unlink c lx rx s)"
          using delete_rotate_left_state[OF _ _ nD, of ll a c ptr lx rx s] wf less.prems(2)
          unfolding l by simp
        have "del_root ?m (Nd l c r) = Nd ll a ?D"
          using True unfolding l r by simp
        then show ?thesis using step rec D st by auto
      next
        case False
        let ?T = "Nd (Nd l c rl) b rr"
        let ?s2 = "relink ptr ?T ?s1"
        have rot: "rotate_right_son ptr ?s1 = (b, ?s2)"
          using rotate_right_son_relink[of l c rl b rr ptr ?s1] wf less.prems(2)
            relink_id[OF t1] unfolding r by simp
        have step: "map_tree_delete_node k ptr s = map_tree_delete_node k (LeftOf b) ?s2"
          using unf lc a0 b0 pa False rot by simp
        have wfT: "wf_shape ?T" using wf unfolding r by auto
        have lfT: "loc_free ptr (nodes ?T)" using less.prems(2) unfolding r by (cases ptr) auto
        have tT: "tree_at ?s2 ptr ?T" by (rule tree_at_relink[OF wfT lfT])
        have sub: "tree_at ?s2 (LeftOf b) (Nd l c rl)"
          using tT wfT by (simp add: tree_at_def)
        have lf2: "loc_free (LeftOf b) (nodes (Nd l c rl))" using wfT by auto
        have k2: "\<not> k < div_start (mem ?s2 c)" "\<not> k \<ge> div_end (mem ?s2 c)"
          using less.prems(3,4) by simp_all
        have "size l + size rl < size l + size r" unfolding r by simp
        from less.hyps[OF this sub lf2 k2] obtain lx rx where
          rec: "map_tree_delete_node k (LeftOf b) ?s2 =
             Some (Inr (c, relink (LeftOf b) (del_root (mem ?s2) (Nd l c rl)) (unlink c lx rx ?s2)))"
          by blast
        let ?D = "del_root ?m (Nd l c rl)"
        have D: "del_root (mem ?s2) (Nd l c rl) = ?D"
          using wf unfolding r by (intro del_root_cong) auto
        have nD: "nodes ?D = nodes l \<union> nodes rl" by (rule nodes_del_root)
        have st: "relink (LeftOf b) ?D (unlink c lx rx ?s2) = relink ptr (Nd ?D b rr) (unlink c lx rx s)"
          using delete_rotate_right_state[OF _ _ nD, of c b rr ptr lx rx s] wf less.prems(2)
          unfolding r by simp
        have "del_root ?m (Nd l c r) = Nd ?D b rr"
          using False unfolding l r by simp
        then show ?thesis using step rec D st by auto
      qed
    qed
  qed
qed

lemma del_facts:
  "del m k t = Inr (x, t') \<Longrightarrow> wf_shape t \<Longrightarrow>
     x \<in> nodes t \<and> nodes t' = nodes t - {x} \<and> wf_shape t'
     \<and> \<not> k < div_start (m x) \<and> \<not> k \<ge> div_end (m x)"
proof (induction t arbitrary: t')
  case Lf
  then show ?case by simp
next
  case (Nd l c r)
  show ?case
  proof (cases "k < div_start (m c)")
    case True
    with Nd.prems(1) obtain l' where l': "del m k l = Inr (x, l')" and t': "t' = Nd l' c r"
      by (auto split: sum.splits)
    from Nd.IH(1)[OF l'] Nd.prems(2) show ?thesis unfolding t' by auto
  next
    case False
    show ?thesis
    proof (cases "k \<ge> div_end (m c)")
      case True
      with False Nd.prems(1) obtain r' where r': "del m k r = Inr (x, r')" and t': "t' = Nd l c r'"
        by (auto split: sum.splits)
      from Nd.IH(2)[OF r'] Nd.prems(2) show ?thesis unfolding t' by auto
    next
      case nge: False
      with False Nd.prems(1) have "x = c" "t' = del_root m (Nd l c r)" by auto
      then show ?thesis
        using False nge Nd.prems(2) wf_shape_del_root[OF Nd.prems(2), of m]
        by (auto simp: nodes_del_root)
    qed
  qed
qed

lemma delete_refines:
  assumes "tree_at s ptr t" "loc_free ptr (nodes t)"
  shows "\<exists>lx rx. map_tree_delete_node k ptr s =
           Some (case del (mem s) k t of
                   Inl e \<Rightarrow> Inl e
                 | Inr (x, t') \<Rightarrow> Inr (x, relink ptr t' (unlink x lx rx s)))"
  using assms
proof (induction t arbitrary: ptr)
  case Lf
  then show ?case
    by (subst map_tree_delete_node.simps) (simp add: tree_at_def)
next
  case (Nd l c r)
  let ?m = "mem s"
  from Nd.prems have c: "rd ptr s = c" "c \<noteq> nullptr" and wf: "wf_shape (Nd l c r)"
    and lk: "linked ?m (Nd l c r)"
    by (simp_all add: tree_at_def)
  show ?case
  proof (cases "k < div_start (?m c)")
    case True
    have step: "map_tree_delete_node k ptr s = map_tree_delete_node k (LeftOf c) s"
      using c True by (subst map_tree_delete_node.simps) simp
    have tl: "tree_at s (LeftOf c) l" using lk wf by (simp add: tree_at_def)
    have "loc_free (LeftOf c) (nodes l)" using wf by simp
    from Nd.IH(1)[OF tl this] obtain lx rx where
      rec: "map_tree_delete_node k (LeftOf c) s =
           Some (case del ?m k l of Inl e \<Rightarrow> Inl e
                 | Inr (x, l') \<Rightarrow> Inr (x, relink (LeftOf c) l' (unlink x lx rx s)))"
      by blast
    show ?thesis
    proof (cases "del ?m k l")
      case (Inl e)
      then show ?thesis using step rec True by simp
    next
      case (Inr p)
      obtain x l' where p: "p = (x, l')" by (cases p)
      have f: "x \<in> nodes l" "nodes l' = nodes l - {x}" "wf_shape l'"
        using del_facts[OF Inr[unfolded p]] wf by auto
      let ?s' = "unlink x lx rx s"
      have xc: "x \<noteq> c" "x \<notin> nodes r" using f(1) wf by auto
      have "relink (LeftOf c) l' ?s' = relink ptr (Nd l' c r) ?s'"
      proof (rule relink_left_child)
        show "rd ptr ?s' = c" using c Nd.prems(2) f(1) by (cases ptr) auto
        show "right (mem ?s' c) = rootp r" using lk xc by simp
        show "linked (mem ?s') r" using lk xc by (subst linked_cong[of r _ ?m]) auto
        show "wf_shape (Nd l' c r)" using wf f by auto
        show "loc_free ptr (nodes (Nd l' c r))" using Nd.prems(2) f by (cases ptr) auto
      qed
      then show ?thesis using step rec True Inr p by auto
    qed
  next
    case False
    show ?thesis
    proof (cases "k \<ge> div_end (?m c)")
      case ge: True
      have step: "map_tree_delete_node k ptr s = map_tree_delete_node k (RightOf c) s"
        using c False ge by (subst map_tree_delete_node.simps) simp
      have tr: "tree_at s (RightOf c) r" using lk wf by (simp add: tree_at_def)
      have "loc_free (RightOf c) (nodes r)" using wf by simp
      from Nd.IH(2)[OF tr this] obtain lx rx where
        rec: "map_tree_delete_node k (RightOf c) s =
             Some (case del ?m k r of Inl e \<Rightarrow> Inl e
                   | Inr (x, r') \<Rightarrow> Inr (x, relink (RightOf c) r' (unlink x lx rx s)))"
        by blast
      show ?thesis
      proof (cases "del ?m k r")
        case (Inl e)
        then show ?thesis using step rec False ge by simp
      next
        case (Inr p)
        obtain x r' where p: "p = (x, r')" by (cases p)
        have f: "x \<in> nodes r" "nodes r' = nodes r - {x}" "wf_shape r'"
          using del_facts[OF Inr[unfolded p]] wf by auto
        let ?s' = "unlink x lx rx s"
        have xc: "x \<noteq> c" "x \<notin> nodes l" using f(1) wf by auto
        have "relink (RightOf c) r' ?s' = relink ptr (Nd l c r') ?s'"
        proof (rule relink_right_child)
          show "rd ptr ?s' = c" using c Nd.prems(2) f(1) by (cases ptr) auto
          show "left (mem ?s' c) = rootp l" using lk xc by simp
          show "linked (mem ?s') l" using lk xc by (subst linked_cong[of l _ ?m]) auto
          show "wf_shape (Nd l c r')" using wf f by auto
          show "loc_free ptr (nodes (Nd l c r'))" using Nd.prems(2) f by (cases ptr) auto
        qed
        then show ?thesis using step rec False ge Inr p by auto
      qed
    next
      case nge: False
      from delete_root_refines[OF Nd.prems False nge]
      show ?thesis using False nge by simp
    qed
  qed
qed


section \<open>The registration refines the functional insertion\<close>

lemma rando_map_add_draw:
  assumes "alloc_node mmap_result s = Inr (node, s1)"
    "rando_map_add mmap_result draws dstart dsize ustart uvaddr nfuncs fs s = Some res"
  shows "\<exists>p. arc4random_uniform UINT32_MAX draws = Some p"
proof (cases "arc4random_uniform UINT32_MAX draws")
  case None
  then show ?thesis using assms by (simp add: rando_map_add_def)
next
  case (Some p)
  then show ?thesis by simp
qed

lemma rando_map_add_refines:
  assumes "alloc_node mmap_result s = Inr (node, s1)" "tree_at s1 Root t"
    "node \<notin> nodes t" "node \<noteq> nullptr"
    "arc4random_uniform UINT32_MAX draws = Some p"
  shows "\<exists>s3. mem s3 = (mem s1)(node :=
                       \<lparr>div_start = dstart, div_end = dstart + dsize,
                        undiv_start = ustart, undiv_vaddr = uvaddr,
                        num_funcs = nfuncs, funcs = fs,
                        left = nullptr, right = nullptr,
                        prio = p\<rparr>) \<and>
          rando_map_add mmap_result draws dstart dsize ustart uvaddr nfuncs fs s =
            Some (case ins (mem s3) node t of
                    Inl e \<Rightarrow> Inl e | Inr t' \<Rightarrow> Inr (relink Root t' s3))"
proof -
  define nd where "nd = \<lparr>div_start = dstart, div_end = dstart + dsize,
                        undiv_start = ustart, undiv_vaddr = uvaddr,
                        num_funcs = nfuncs, funcs = fs,
                        left = nullptr, right = nullptr,
                        prio = p\<rparr>"
  define s3 where "s3 = (s1\<lparr>current_page := (current_page s1)
                       \<lparr>next_p := next_p (current_page s1) + sizeof_RandoMapNode\<rparr>\<rparr>)
                     \<lparr>mem := (mem s1)(node := nd)\<rparr>"
  have m3: "mem s3 = (mem s1)(node := nd)" and r3: "root s3 = root s1"
    by (simp_all add: s3_def)
  have add: "rando_map_add mmap_result draws dstart dsize ustart uvaddr nfuncs fs s =
               map_tree_insert_node node Root s3"
    unfolding rando_map_add_def assms(1) assms(5) s3_def nd_def by (simp add: Let_def)
  have "linked (mem s3) t = linked (mem s1) t"
    unfolding m3 using assms(3) by (intro linked_cong) auto
  then have T: "tree_at s3 Root t" using assms(2) r3 by (simp add: tree_at_def)
  have lr: "left (mem s3 node) = nullptr" "right (mem s3 node) = nullptr"
    by (simp_all add: m3 nd_def)
  have ref: "map_tree_insert_node node Root s3 =
           Some (case ins (mem s3) node t of Inl e \<Rightarrow> Inl e | Inr t' \<Rightarrow> Inr (relink Root t' s3))"
    by (rule insert_refines[OF T assms(3,4) lr]) simp
  show ?thesis using m3 add ref unfolding nd_def by (intro exI[of _ s3]) simp
qed

section \<open>Insertion and deletion on shapes keep the invariants\<close>

lemma set_inorder [simp]: "set (inorder t) = nodes t"
  by (induction t) auto

lemma rootp_in_nodes: "t \<noteq> Lf \<Longrightarrow> rootp t \<in> nodes t"
  by (cases t) auto

lemma tree_at_unique_aux:
  "linked m t \<Longrightarrow> wf_shape t \<Longrightarrow> linked m t' \<Longrightarrow> wf_shape t' \<Longrightarrow> rootp t = rootp t' \<Longrightarrow> t = t'"
proof (induction t arbitrary: t')
  case Lf
  then show ?case by (cases t') auto
next
  case (Nd l a r)
  then obtain l' r' where t': "t' = Nd l' a r'" by (cases t') auto
  have "l = l'" using Nd.IH(1)[of l'] Nd.prems unfolding t' by auto
  moreover have "r = r'" using Nd.IH(2)[of r'] Nd.prems unfolding t' by auto
  ultimately show ?case using t' by simp
qed

lemma tree_at_unique: "tree_at s ptr t \<Longrightarrow> tree_at s ptr t' \<Longrightarrow> t = t'"
  using tree_at_unique_aux[of "mem s" t t'] by (simp add: tree_at_def)

subsection \<open>Search-tree order\<close>

lemma bst_order_Nd:
  "bst_order m (Nd l c r) \<longleftrightarrow>
     bst_order m l \<and> bst_order m r \<and>
     (\<forall>a\<in>nodes l. div_start (m a) < div_start (m c)) \<and>
     (\<forall>b\<in>nodes r. div_start (m c) < div_start (m b)) \<and>
     (\<forall>a\<in>nodes l. \<forall>b\<in>nodes r. div_start (m a) < div_start (m b))"
  by (auto simp: bst_order_def sorted_wrt_append)

lemma bst_order_Lf [simp]: "bst_order m Lf"
  by (simp add: bst_order_def)

lemma bst_order_rot [simp]:
  "bst_order m (rot_left t) = bst_order m t" "bst_order m (rot_right t) = bst_order m t"
  by (simp_all add: bst_order_def)

lemma bst_order_ins:
  "ins m n t = Inr t' \<Longrightarrow> bst_order m t \<Longrightarrow> nonempty_intervals m t \<Longrightarrow> bst_order m t'"
proof (induction t arbitrary: t')
  case Lf
  then show ?case by (auto simp: bst_order_def)
next
  case (Nd l c r)
  from Nd.prems(3) have pc: "div_start (m c) < div_end (m c)"
    and pl: "nonempty_intervals m l" and pr: "nonempty_intervals m r"
    by (auto simp: nonempty_intervals_def)
  show ?case
  proof (cases "div_start (m n) < div_start (m c)")
    case True
    with Nd.prems(1) obtain l' where l': "ins m n l = Inr l'"
      and t': "t' = (if prio (m (rootp l')) > prio (m c) then rot_left (Nd l' c r) else Nd l' c r)"
      by (auto split: sum.splits)
    have "bst_order m l'" using Nd.IH(1)[OF l'] Nd.prems(2) pl by (simp add: bst_order_Nd)
    moreover have "nodes l' = insert n (nodes l)" by (rule nodes_ins[OF l'])
    ultimately have "bst_order m (Nd l' c r)"
      using Nd.prems(2) True by (auto simp: bst_order_Nd)
    then show ?thesis unfolding t' by simp
  next
    case False
    with Nd.prems(1) have ge: "div_end (m c) \<le> div_start (m n)" by (auto split: if_splits)
    with False Nd.prems(1) obtain r' where r': "ins m n r = Inr r'"
      and t': "t' = (if prio (m (rootp r')) > prio (m c) then rot_right (Nd l c r') else Nd l c r')"
      by (auto split: sum.splits)
    have "bst_order m r'" using Nd.IH(2)[OF r'] Nd.prems(2) pr by (simp add: bst_order_Nd)
    moreover have "nodes r' = insert n (nodes r)" by (rule nodes_ins[OF r'])
    moreover have "div_start (m c) < div_start (m n)" using pc ge by simp
    ultimately have "bst_order m (Nd l c r')"
      using Nd.prems(2) by (fastforce simp: bst_order_Nd)
    then show ?thesis unfolding t' by simp
  qed
qed

lemma inorder_del:
  "del m k t = Inr (x, t') \<Longrightarrow> \<exists>xs ys. inorder t = xs @ x # ys \<and> inorder t' = xs @ ys"
proof (induction t arbitrary: t')
  case Lf
  then show ?case by simp
next
  case (Nd l c r)
  show ?case
  proof (cases "k < div_start (m c)")
    case True
    with Nd.prems(1) obtain l' where l': "del m k l = Inr (x, l')" and t': "t' = Nd l' c r"
      by (auto split: sum.splits)
    from Nd.IH(1)[OF l'] obtain xs ys where "inorder l = xs @ x # ys" "inorder l' = xs @ ys"
      by blast
    then show ?thesis unfolding t' by (intro exI[of _ xs] exI[of _ "ys @ c # inorder r"]) simp
  next
    case False
    show ?thesis
    proof (cases "k \<ge> div_end (m c)")
      case True
      with False Nd.prems(1) obtain r' where r': "del m k r = Inr (x, r')" and t': "t' = Nd l c r'"
        by (auto split: sum.splits)
      from Nd.IH(2)[OF r'] obtain xs ys where "inorder r = xs @ x # ys" "inorder r' = xs @ ys"
        by blast
      then show ?thesis unfolding t' by (intro exI[of _ "inorder l @ c # xs"] exI[of _ ys]) simp
    next
      case nge: False
      with False Nd.prems(1) have "x = c" "t' = del_root m (Nd l c r)" by auto
      then show ?thesis
        by (intro exI[of _ "inorder l"] exI[of _ "inorder r"]) (simp add: inorder_del_root)
    qed
  qed
qed

lemma bst_order_del:
  "del m k t = Inr (x, t') \<Longrightarrow> bst_order m t \<Longrightarrow> bst_order m t'"
  using inorder_del[of m k t x t'] by (auto simp: bst_order_def sorted_wrt_append)

lemma disjoint_ascending_del:
  "del m k t = Inr (x, t') \<Longrightarrow> disjoint_ascending m t \<Longrightarrow> disjoint_ascending m t'"
  using inorder_del[of m k t x t'] by (auto simp: disjoint_ascending_def sorted_wrt_append)

subsection \<open>Heap order\<close>

lemma heap_order_root_max:
  "heap_order m t \<Longrightarrow> a \<in> nodes t \<Longrightarrow> prio (m a) \<le> prio (m (rootp t))"
proof (induction t)
  case Lf
  then show ?case by simp
next
  case (Nd l c r)
  from Nd.prems(2) consider "a = c" | "a \<in> nodes l" | "a \<in> nodes r" by auto
  then show ?case
  proof cases
    case 1
    then show ?thesis by simp
  next
    case 2
    then have "l \<noteq> Lf" by auto
    moreover have "prio (m a) \<le> prio (m (rootp l))" using Nd.IH(1) Nd.prems(1) 2 by simp
    ultimately show ?thesis using Nd.prems(1) by auto
  next
    case 3
    then have "r \<noteq> Lf" by auto
    moreover have "prio (m a) \<le> prio (m (rootp r))" using Nd.IH(2) Nd.prems(1) 3 by simp
    ultimately show ?thesis using Nd.prems(1) by auto
  qed
qed

lemma heap_order_cong:
  "(\<And>a. a \<in> nodes t \<Longrightarrow> prio (m' a) = prio (m a)) \<Longrightarrow> heap_order m' t = heap_order m t"
proof (induction t)
  case Lf
  then show ?case by simp
next
  case (Nd l c r)
  have "l \<noteq> Lf \<Longrightarrow> prio (m' (rootp l)) = prio (m (rootp l))"
    using Nd.prems rootp_in_nodes[of l] by auto
  moreover have "r \<noteq> Lf \<Longrightarrow> prio (m' (rootp r)) = prio (m (rootp r))"
    using Nd.prems rootp_in_nodes[of r] by auto
  moreover have "prio (m' c) = prio (m c)" using Nd.prems by simp
  moreover have "heap_order m' l = heap_order m l" "heap_order m' r = heap_order m r"
    using Nd by auto
  ultimately show ?case by auto
qed

lemma heap_order_ins:
  assumes "ins m n t = Inr t'" "heap_order m t" "wf_shape t" "n \<notin> nodes t" "n \<noteq> nullptr"
  shows "heap_order m t' \<and> (rootp t' = n \<or> (t \<noteq> Lf \<and> rootp t' = rootp t))"
  using assms
proof (induction t arbitrary: t')
  case Lf
  then show ?case by auto
next
  case (Nd l c r)
  show ?case
  proof (cases "div_start (m n) < div_start (m c)")
    case True
    with Nd.prems(1) obtain l' where l': "ins m n l = Inr l'"
      and t': "t' = (if prio (m (rootp l')) > prio (m c) then rot_left (Nd l' c r) else Nd l' c r)"
      by (auto split: sum.splits)
    obtain ll sn lr where l'eq: "l' = Nd ll sn lr" using ins_Lf_cases[OF l'] by blast
    from Nd.IH(1)[OF l'] Nd.prems have hl': "heap_order m l'"
      and rl': "sn = n \<or> (l \<noteq> Lf \<and> sn = rootp l)"
      unfolding l'eq by auto
    have nl': "nodes l' = insert n (nodes l)" by (rule nodes_ins[OF l'])
    have wfl': "wf_shape l'" using wf_shape_ins[OF l'] Nd.prems by simp
    show ?thesis
    proof (cases "prio (m sn) > prio (m c)")
      case rot: True
      have "sn = n"
      proof (rule ccontr)
        assume "sn \<noteq> n"
        with rl' have "l \<noteq> Lf" "sn = rootp l" by auto
        with Nd.prems(2) have "prio (m sn) \<le> prio (m c)" by simp
        with rot show False by simp
      qed
      have lr_le: "prio (m (rootp lr)) \<le> prio (m c)" if "lr \<noteq> Lf"
      proof -
        have "rootp lr \<in> nodes lr" using that by (rule rootp_in_nodes)
        moreover have "n \<notin> nodes lr" using wfl' \<open>sn = n\<close> unfolding l'eq by simp
        ultimately have in_l: "rootp lr \<in> nodes l" using nl' unfolding l'eq by auto
        then have "l \<noteq> Lf" by auto
        moreover have "prio (m (rootp lr)) \<le> prio (m (rootp l))"
          using heap_order_root_max[OF _ in_l] Nd.prems(2) by simp
        ultimately show ?thesis using Nd.prems(2) by auto
      qed
      have "heap_order m (Nd ll sn (Nd lr c r))"
        using hl' Nd.prems(2) rot lr_le unfolding l'eq by auto
      then show ?thesis using rot \<open>sn = n\<close> unfolding t' l'eq by simp
    next
      case norot: False
      then have "heap_order m (Nd l' c r)" using hl' Nd.prems(2) unfolding l'eq by auto
      then show ?thesis using norot unfolding t' l'eq by simp
    qed
  next
    case False
    with Nd.prems(1) have ge: "div_end (m c) \<le> div_start (m n)" by (auto split: if_splits)
    with False Nd.prems(1) obtain r' where r': "ins m n r = Inr r'"
      and t': "t' = (if prio (m (rootp r')) > prio (m c) then rot_right (Nd l c r') else Nd l c r')"
      by (auto split: sum.splits)
    obtain rl sn rr where r'eq: "r' = Nd rl sn rr" using ins_Lf_cases[OF r'] by blast
    from Nd.IH(2)[OF r'] Nd.prems have hr': "heap_order m r'"
      and rr': "sn = n \<or> (r \<noteq> Lf \<and> sn = rootp r)"
      unfolding r'eq by auto
    have nr': "nodes r' = insert n (nodes r)" by (rule nodes_ins[OF r'])
    have wfr': "wf_shape r'" using wf_shape_ins[OF r'] Nd.prems by simp
    show ?thesis
    proof (cases "prio (m sn) > prio (m c)")
      case rot: True
      have "sn = n"
      proof (rule ccontr)
        assume "sn \<noteq> n"
        with rr' have "r \<noteq> Lf" "sn = rootp r" by auto
        with Nd.prems(2) have "prio (m sn) \<le> prio (m c)" by simp
        with rot show False by simp
      qed
      have rl_le: "prio (m (rootp rl)) \<le> prio (m c)" if "rl \<noteq> Lf"
      proof -
        have "rootp rl \<in> nodes rl" using that by (rule rootp_in_nodes)
        moreover have "n \<notin> nodes rl" using wfr' \<open>sn = n\<close> unfolding r'eq by simp
        ultimately have in_r: "rootp rl \<in> nodes r" using nr' unfolding r'eq by auto
        then have "r \<noteq> Lf" by auto
        moreover have "prio (m (rootp rl)) \<le> prio (m (rootp r))"
          using heap_order_root_max[OF _ in_r] Nd.prems(2) by simp
        ultimately show ?thesis using Nd.prems(2) by auto
      qed
      have "heap_order m (Nd (Nd l c rl) sn rr)"
        using hr' Nd.prems(2) rot rl_le unfolding r'eq by auto
      then show ?thesis using rot \<open>sn = n\<close> unfolding t' r'eq by simp
    next
      case norot: False
      then have "heap_order m (Nd l c r')" using hr' Nd.prems(2) unfolding r'eq by auto
      then show ?thesis using norot unfolding t' r'eq by simp
    qed
  qed
qed

lemma heap_order_del_root:
  "heap_order m l \<Longrightarrow> heap_order m r \<Longrightarrow>
   heap_order m (del_root m (Nd l c r)) \<and>
   (del_root m (Nd l c r) \<noteq> Lf \<longrightarrow>
      (l \<noteq> Lf \<and> rootp (del_root m (Nd l c r)) = rootp l) \<or>
      (r \<noteq> Lf \<and> rootp (del_root m (Nd l c r)) = rootp r))"
proof (induction m "Nd l c r" arbitrary: l r rule: del_root.induct)
  case (2 m r)
  then show ?case by simp
next
  case (3 m ll a lr)
  then show ?case by simp
next
  case (4 m ll a lr rl b rr)
  show ?case
  proof (cases "prio (m a) > prio (m b)")
    case True
    let ?D = "del_root m (Nd lr c (Nd rl b rr))"
    from "4.hyps"(1)[OF True] "4.prems" have hD: "heap_order m ?D"
      and rD: "?D \<noteq> Lf \<longrightarrow> (lr \<noteq> Lf \<and> rootp ?D = rootp lr) \<or> rootp ?D = b"
      by auto
    have "?D \<noteq> Lf \<longrightarrow> prio (m (rootp ?D)) \<le> prio (m a)"
      using rD "4.prems"(1) True by auto
    then show ?thesis using True hD "4.prems" by auto
  next
    case False
    let ?D = "del_root m (Nd (Nd ll a lr) c rl)"
    from "4.hyps"(2)[OF False] "4.prems" have hD: "heap_order m ?D"
      and rD: "?D \<noteq> Lf \<longrightarrow> rootp ?D = a \<or> (rl \<noteq> Lf \<and> rootp ?D = rootp rl)"
      by auto
    have "?D \<noteq> Lf \<longrightarrow> prio (m (rootp ?D)) \<le> prio (m b)"
      using rD "4.prems"(2) False by auto
    then show ?thesis using False hD "4.prems" by auto
  qed
qed

lemma heap_order_del:
  "del m k t = Inr (x, t') \<Longrightarrow> heap_order m t \<Longrightarrow>
   heap_order m t' \<and> (t' \<noteq> Lf \<longrightarrow> prio (m (rootp t')) \<le> prio (m (rootp t)))"
proof (induction t arbitrary: t')
  case Lf
  then show ?case by simp
next
  case (Nd l c r)
  show ?case
  proof (cases "k < div_start (m c)")
    case True
    with Nd.prems(1) obtain l' where l': "del m k l = Inr (x, l')" and t': "t' = Nd l' c r"
      by (auto split: sum.splits)
    have "l \<noteq> Lf" using l' by auto
    with Nd.IH(1)[OF l'] Nd.prems(2) show ?thesis unfolding t' by auto
  next
    case False
    show ?thesis
    proof (cases "k \<ge> div_end (m c)")
      case True
      with False Nd.prems(1) obtain r' where r': "del m k r = Inr (x, r')" and t': "t' = Nd l c r'"
        by (auto split: sum.splits)
      have "r \<noteq> Lf" using r' by auto
      with Nd.IH(2)[OF r'] Nd.prems(2) show ?thesis unfolding t' by auto
    next
      case nge: False
      with False Nd.prems(1) have t': "t' = del_root m (Nd l c r)" by auto
      from heap_order_del_root[of m l r c] Nd.prems(2) show ?thesis unfolding t' by auto
    qed
  qed
qed


section \<open>Termination of insertion and deletion\<close>

lemma insert_terminates:
  "linked (mem s) t \<Longrightarrow> rd ptr s = rootp t \<Longrightarrow> nullptr \<notin> nodes t \<Longrightarrow>
   \<exists>res. map_tree_insert_node node ptr s = Some res"
proof (induction t arbitrary: ptr)
  case Lf
  then show ?case by (subst map_tree_insert_node.simps) simp
next
  case (Nd l c r)
  then have c: "rd ptr s = c" "c \<noteq> nullptr" by auto
  from Nd.IH(1)[of "LeftOf c"] Nd.prems obtain resl where
    l: "map_tree_insert_node node (LeftOf c) s = Some resl" by auto
  from Nd.IH(2)[of "RightOf c"] Nd.prems obtain resr where
    r: "map_tree_insert_node node (RightOf c) s = Some resr" by auto
  show ?case
    using c l r by (subst map_tree_insert_node.simps) (auto split: sum.splits)
qed

text \<open>
  Claim C8.  When the pointer at \<open>ptr\<close> designates a finite tree (and \<open>ptr\<close> is
  not a field of one of its nodes, as for the root field of the header),
  \<open>map_tree_insert_node\<close> and \<open>map_tree_delete_node\<close> return: normally or
  by the fatal path.  No order invariant is needed.  For the deletion this
  includes the recursion that rotates the node to be removed below its child
  of higher priority.
\<close>

theorem map_tree_operations_terminate:
  assumes "tree_at s ptr t" "loc_free ptr (nodes t)"
  shows "(\<exists>res. map_tree_insert_node node ptr s = Some res)
       \<and> (\<exists>res. map_tree_delete_node dstart ptr s = Some res)"
proof
  have "wf_shape t" using assms(1) by (simp add: tree_at_def)
  then have "nullptr \<notin> nodes t" by (induction t) auto
  then show "\<exists>res. map_tree_insert_node node ptr s = Some res"
    using insert_terminates assms(1) by (auto simp: tree_at_def)
  show "\<exists>res. map_tree_delete_node dstart ptr s = Some res"
    using delete_refines[OF assms, of dstart] by blast
qed

lemma two_regions_tree:
  "tree_at two_regions Root (Nd (Nd Lf 0x100a0 Lf) 0x10010 Lf)"
  by (simp add: two_regions_def tree_at_def rando_eval)

theorem map_tree_operations_terminate_witness:
  "tree_at two_regions Root (Nd (Nd Lf 0x100a0 Lf) 0x10010 Lf)
   \<and> loc_free Root (nodes (Nd (Nd Lf 0x100a0 Lf) 0x10010 Lf))
   \<and> (\<exists>res. map_tree_insert_node 0x10130 Root two_regions = Some res)
   \<and> (\<exists>res. map_tree_delete_node 0x2000 Root two_regions = Some res)"
  using map_tree_operations_terminate[where node = "0x10130" and dstart = "0x2000",
      OF two_regions_tree] two_regions_tree
  by simp

section \<open>The invariants on memory\<close>

lemma bst_order_cong:
  "(\<And>a. div_start (m' a) = div_start (m a)) \<Longrightarrow> bst_order m' t = bst_order m t"
  by (simp add: bst_order_def)

lemma disjoint_ascending_cong:
  "(\<And>a. div_start (m' a) = div_start (m a)) \<Longrightarrow> (\<And>a. div_end (m' a) = div_end (m a)) \<Longrightarrow>
   disjoint_ascending m' t = disjoint_ascending m t"
  by (simp add: disjoint_ascending_def)

lemma content_link [simp]:
  "prio (link t m a) = prio (m a)"
  "div_start (link t m a) = div_start (m a)"
  "div_end (link t m a) = div_end (m a)"
  using same_content_link(1)[of t m a "m a"]
  by (simp_all add: same_content_def del: same_content_link)

lemma insert_keeps_invariants:
  assumes "tree_at s Root t" "bst_order (mem s) t" "heap_order (mem s) t"
    "node \<notin> nodes t" "node \<noteq> nullptr"
    "left (mem s node) = nullptr" "right (mem s node) = nullptr"
  shows "\<exists>res. map_tree_insert_node node Root s = Some res \<and>
           (\<forall>s'. res = Inr s' \<longrightarrow>
              (\<exists>t'. tree_at s' Root t' \<and> nodes t' = insert node (nodes t) \<and>
                    heap_order (mem s') t' \<and>
                    (nonempty_intervals (mem s) t \<longrightarrow> bst_order (mem s') t')))"
proof -
  have wf: "wf_shape t" using assms(1) by (simp add: tree_at_def)
  have ref: "map_tree_insert_node node Root s =
           Some (case ins (mem s) node t of Inl e \<Rightarrow> Inl e | Inr t' \<Rightarrow> Inr (relink Root t' s))"
    by (rule insert_refines[OF assms(1,4,5,6,7)]) simp
  show ?thesis
  proof (cases "ins (mem s) node t")
    case (Inl e)
    then show ?thesis using ref by simp
  next
    case (Inr t')
    let ?s' = "relink Root t' s"
    have wf': "wf_shape t'" by (rule wf_shape_ins[OF Inr wf assms(4,5)])
    have "tree_at ?s' Root t'" by (rule tree_at_relink[OF wf']) simp
    moreover have "nodes t' = insert node (nodes t)" by (rule nodes_ins[OF Inr])
    moreover have "bst_order (mem ?s') t'" if ne: "nonempty_intervals (mem s) t"
    proof -
      have "bst_order (mem ?s') t' = bst_order (mem s) t'" by (rule bst_order_cong) simp
      then show ?thesis using bst_order_ins[OF Inr assms(2) ne] by simp
    qed
    moreover have "heap_order (mem ?s') t'"
    proof -
      have "heap_order (mem ?s') t' = heap_order (mem s) t'" by (rule heap_order_cong) simp
      then show ?thesis using heap_order_ins[OF Inr assms(3) wf assms(4,5)] by simp
    qed
    ultimately show ?thesis using ref Inr by auto
  qed
qed

lemma delete_keeps_invariants:
  assumes "tree_at s Root t" "bst_order (mem s) t" "heap_order (mem s) t"
  shows "\<exists>res. map_tree_delete_node dstart Root s = Some res \<and>
           (\<forall>x s'. res = Inr (x, s') \<longrightarrow>
              (\<exists>t'. tree_at s' Root t' \<and> nodes t' = nodes t - {x} \<and>
                    bst_order (mem s') t' \<and> heap_order (mem s') t'))"
proof -
  have wf: "wf_shape t" using assms(1) by (simp add: tree_at_def)
  obtain lx rx where ref: "map_tree_delete_node dstart Root s =
           Some (case del (mem s) dstart t of
                   Inl e \<Rightarrow> Inl e
                 | Inr (x, t') \<Rightarrow> Inr (x, relink Root t' (unlink x lx rx s)))"
    using delete_refines[OF assms(1), of dstart] by auto
  show ?thesis
  proof (cases "del (mem s) dstart t")
    case (Inl e)
    then show ?thesis using ref by simp
  next
    case (Inr p)
    obtain x t' where p: "p = (x, t')" by (cases p)
    let ?s' = "relink Root t' (unlink x lx rx s)"
    have f: "x \<in> nodes t" "nodes t' = nodes t - {x}" "wf_shape t'"
      using del_facts[OF Inr[unfolded p] wf] by auto
    have "tree_at ?s' Root t'" by (rule tree_at_relink[OF f(3)]) simp
    moreover have "bst_order (mem ?s') t'"
    proof -
      have "bst_order (mem ?s') t' = bst_order (mem s) t'" by (rule bst_order_cong) simp
      then show ?thesis using bst_order_del[OF Inr[unfolded p] assms(2)] by simp
    qed
    moreover have "heap_order (mem ?s') t'"
    proof -
      have "heap_order (mem ?s') t' = heap_order (mem s) t'"
        using f(2) by (intro heap_order_cong) auto
      then show ?thesis using heap_order_del[OF Inr[unfolded p] assms(3)] by simp
    qed
    ultimately show ?thesis using ref Inr p f(2) by auto
  qed
qed

text \<open>
  Claim C3, as stated, fails for the insertion: a tree may hold a node whose
  interval is empty (\<open>rando_map_add\<close> with \<^verbatim>\<open>div_size = 0\<close>), and a node
  inserted with the same \<^verbatim>\<open>div_start\<close> goes to its right.  The tree with the
  single node \<open>[0x1000, 0x1000)\<close> satisfies both invariants; after the
  insertion of \<open>[0x1000, 0x1400)\<close> the in-order traversal of
  \<^verbatim>\<open>div_start\<close> is \<open>0x1000, 0x1000\<close>, which is not strictly ascending.
\<close>

theorem bst_order_broken_counterexample:
  "\<exists>s1 s2.
     rando_map_add None [5] 0x1000 0 0x9000 0x9000 2 0x6000 after_init = Some (Inr s1) \<and>
     tree_at s1 Root (Nd Lf 0x10010 Lf) \<and>
     bst_order (mem s1) (Nd Lf 0x10010 Lf) \<and> heap_order (mem s1) (Nd Lf 0x10010 Lf) \<and>
     rando_map_add None [4] 0x1000 0x400 0xA000 0xA000 3 0x7000 s1 = Some (Inr s2) \<and>
     tree_at s2 Root (Nd Lf 0x10010 (Nd Lf 0x100a0 Lf)) \<and>
     \<not> bst_order (mem s2) (Nd Lf 0x10010 (Nd Lf 0x100a0 Lf))"
  by (simp add: rando_eval tree_at_def bst_order_def)

text \<open>
  Claim C3, amended.  On a state whose root designates a finite tree that
  satisfies the search-tree order on \<^verbatim>\<open>div_start\<close> and the max-heap order on
  \<^verbatim>\<open>prio\<close>: the insertion of a fresh node (not in the tree, not null, with
  null links, as \<open>rando_map_add\<close> prepares it) returns, and when it returns
  normally the root designates a tree of the old nodes and the new one that
  satisfies the max-heap order, and that satisfies the search-tree order if
  every node of the old tree has \<^verbatim>\<open>div_start < div_end\<close>; the deletion
  returns, and when it returns normally the root designates a tree of the old
  nodes without the detached one that satisfies both orders.
\<close>

theorem treap_invariants_preserved:
  assumes "tree_at s Root t" "bst_order (mem s) t" "heap_order (mem s) t"
  shows "(node \<notin> nodes t \<and> node \<noteq> nullptr \<and>
          left (mem s node) = nullptr \<and> right (mem s node) = nullptr \<longrightarrow>
            (\<exists>res. map_tree_insert_node node Root s = Some res \<and>
               (\<forall>s'. res = Inr s' \<longrightarrow>
                  (\<exists>t'. tree_at s' Root t' \<and> nodes t' = insert node (nodes t) \<and>
                        heap_order (mem s') t' \<and>
                        (nonempty_intervals (mem s) t \<longrightarrow> bst_order (mem s') t')))))
       \<and> (\<exists>res. map_tree_delete_node dstart Root s = Some res \<and>
             (\<forall>x s'. res = Inr (x, s') \<longrightarrow>
                (\<exists>t'. tree_at s' Root t' \<and> nodes t' = nodes t - {x} \<and>
                      bst_order (mem s') t' \<and> heap_order (mem s') t')))"
  using insert_keeps_invariants[OF assms, of node] delete_keeps_invariants[OF assms, of dstart]
  by blast

lemma three_regions_tree:
  "tree_at three_regions Root (Nd (Nd Lf 0x100a0 Lf) 0x10010 (Nd Lf 0x10130 Lf))"
  by (simp add: three_regions_def two_regions_def tree_at_def rando_eval)

lemma three_regions_pending_tree:
  "tree_at three_regions_pending Root (Nd (Nd Lf 0x100a0 Lf) 0x10010 (Nd Lf 0x10130 Lf))"
  by (simp add: three_regions_pending_def three_regions_def two_regions_def tree_at_def
      rando_eval)

theorem treap_invariants_preserved_witness:
  "tree_at three_regions_pending Root (Nd (Nd Lf 0x100a0 Lf) 0x10010 (Nd Lf 0x10130 Lf))
   \<and> bst_order (mem three_regions_pending) (Nd (Nd Lf 0x100a0 Lf) 0x10010 (Nd Lf 0x10130 Lf))
   \<and> heap_order (mem three_regions_pending) (Nd (Nd Lf 0x100a0 Lf) 0x10010 (Nd Lf 0x10130 Lf))
   \<and> nonempty_intervals (mem three_regions_pending)
        (Nd (Nd Lf 0x100a0 Lf) 0x10010 (Nd Lf 0x10130 Lf))
   \<and> (\<exists>s'. map_tree_insert_node 0x101c0 Root three_regions_pending = Some (Inr s') \<and>
          root s' = 0x101c0 \<and>
          (\<exists>t'. tree_at s' Root t'
                \<and> nodes t' = {0x101c0, 0x10010, 0x100a0, 0x10130}
                \<and> bst_order (mem s') t' \<and> heap_order (mem s') t'))
   \<and> (\<exists>s'. map_tree_delete_node 0x2000 Root three_regions_pending = Some (Inr (0x10010, s')) \<and>
          root s' = 0x100a0 \<and>
          (\<exists>t'. tree_at s' Root t'
                \<and> nodes t' = {0x100a0, 0x10130}
                \<and> bst_order (mem s') t' \<and> heap_order (mem s') t'))"
proof -
  let ?T = "Nd (Nd Lf 0x100a0 Lf) 0x10010 (Nd Lf 0x10130 Lf)"
  let ?S = "three_regions_pending"
  note ev = three_regions_pending_def three_regions_def two_regions_def rando_eval
  have t: "tree_at ?S Root ?T" by (rule three_regions_pending_tree)
  have b: "bst_order (mem ?S) ?T" by (simp add: ev bst_order_def)
  have h: "heap_order (mem ?S) ?T" by (simp add: ev)
  have n: "nonempty_intervals (mem ?S) ?T" by (simp add: ev nonempty_intervals_def)
  have f: "0x101c0 \<notin> nodes ?T" "(0x101c0 :: addr) \<noteq> nullptr"
    "left (mem ?S 0x101c0) = nullptr" "right (mem ?S 0x101c0) = nullptr"
    by (simp_all add: ev)
  obtain s1 where i: "map_tree_insert_node 0x101c0 Root ?S = Some (Inr s1)"
    and ri: "root s1 = 0x101c0"
    by (simp add: ev)
  obtain s2 where d: "map_tree_delete_node 0x2000 Root ?S = Some (Inr (0x10010, s2))"
    and rd: "root s2 = 0x100a0"
    by (simp add: ev)
  note th = treap_invariants_preserved[OF t b h, of "0x101c0" "0x2000"]
  from th f have "\<exists>res. map_tree_insert_node 0x101c0 Root ?S = Some res \<and>
               (\<forall>s'. res = Inr s' \<longrightarrow>
                  (\<exists>t'. tree_at s' Root t' \<and> nodes t' = insert 0x101c0 (nodes ?T) \<and>
                        heap_order (mem s') t' \<and>
                        (nonempty_intervals (mem ?S) ?T \<longrightarrow> bst_order (mem s') t')))"
    by blast
  with i n obtain t1 where t1: "tree_at s1 Root t1" "nodes t1 = insert 0x101c0 (nodes ?T)"
    "heap_order (mem s1) t1" "bst_order (mem s1) t1"
    by auto
  have n1: "nodes t1 = {0x101c0, 0x10010, 0x100a0, 0x10130}"
    unfolding t1(2) by (simp add: insert_commute)
  from th have "\<exists>res. map_tree_delete_node 0x2000 Root ?S = Some res \<and>
             (\<forall>x s'. res = Inr (x, s') \<longrightarrow>
                (\<exists>t'. tree_at s' Root t' \<and> nodes t' = nodes ?T - {x} \<and>
                      bst_order (mem s') t' \<and> heap_order (mem s') t'))"
    by (rule conjunct2)
  with d obtain t2 where t2: "tree_at s2 Root t2" "nodes t2 = nodes ?T - {0x10010}"
    "bst_order (mem s2) t2" "heap_order (mem s2) t2"
    by auto
  have n2: "nodes t2 = {0x100a0, 0x10130}"
    unfolding t2(2) by (simp add: insert_Diff_if insert_commute)
  have one: "\<exists>s'. map_tree_insert_node 0x101c0 Root ?S = Some (Inr s') \<and>
          root s' = 0x101c0 \<and>
          (\<exists>t'. tree_at s' Root t'
                \<and> nodes t' = {0x101c0, 0x10010, 0x100a0, 0x10130}
                \<and> bst_order (mem s') t' \<and> heap_order (mem s') t')"
    using i ri t1(1,3,4) n1 by blast
  have two: "\<exists>s'. map_tree_delete_node 0x2000 Root ?S = Some (Inr (0x10010, s')) \<and>
          root s' = 0x100a0 \<and>
          (\<exists>t'. tree_at s' Root t'
                \<and> nodes t' = {0x100a0, 0x10130}
                \<and> bst_order (mem s') t' \<and> heap_order (mem s') t')"
    using d rd t2(1,3,4) n2 by blast
  show ?thesis
    by (intro conjI) (rule t, rule b, rule h, rule n, rule one, rule two)
qed

section \<open>Deletion by address\<close>



lemma del_Inl: "del m k t = Inl e \<Longrightarrow> e = Fatal ''trying to delete inexistent node''"
  by (induction t) (auto split: if_splits sum.splits)


lemma rando_map_delete_refines:
  assumes "tree_at s Root t"
  shows "\<exists>lx rx. rando_map_delete dstart s =
           Some (case del (mem s) dstart t of
                   Inl e \<Rightarrow> Inl e
                 | Inr (x, t') \<Rightarrow>
                     Inr ((relink Root t' (unlink x lx rx s))
                            \<lparr>mem := (link t' (mem (unlink x lx rx s)))
                                       (x := zero_node\<lparr>right := free_list s\<rparr>),
                             free_list := x\<rparr>))"
proof -
  obtain lx rx where ref: "map_tree_delete_node dstart Root s =
           Some (case del (mem s) dstart t of
                   Inl e \<Rightarrow> Inl e
                 | Inr (x, t') \<Rightarrow> Inr (x, relink Root t' (unlink x lx rx s)))"
    using delete_refines[OF assms, of dstart] by auto
  show ?thesis
    by (intro exI[of _ lx] exI[of _ rx])
       (simp add: rando_map_delete_def ref Let_def split: sum.splits prod.splits)
qed

lemma del_contains:
  assumes "del m k t = Inr (x, t')" "wf_shape t"
  shows "x \<in> nodes t" "contains m x k"
proof -
  note f = del_facts[OF assms]
  show "x \<in> nodes t" using f by (rule conjunct1)
  have "\<not> k < div_start (m x)" "\<not> k \<ge> div_end (m x)" using f by blast+
  then show "contains m x k" unfolding contains_def by (simp add: not_less not_le)
qed




lemma rando_map_delete_outcome_full:
  assumes "tree_at s Root t"
  shows "\<exists>res. rando_map_delete dstart s = Some res \<and>
           (\<not> (\<exists>a\<in>nodes t. contains (mem s) a dstart) \<longrightarrow>
              res = Inl (Fatal ''trying to delete inexistent node'')) \<and>
           (\<forall>s'. res = Inr s' \<longrightarrow>
              (\<exists>a t'. a \<in> nodes t \<and> contains (mem s) a dstart \<and>
                 tree_at s' Root t' \<and> nodes t' = nodes t - {a} \<and>
                 (\<forall>b. b \<noteq> a \<longrightarrow> same_content (mem s' b) (mem s b)) \<and>
                 (\<forall>b. b \<notin> nodes t \<longrightarrow> mem s' b = mem s b) \<and>
                 mem s' a = zero_node\<lparr>right := free_list s\<rparr> \<and>
                 free_list s' = a \<and>
                 current_page s' = current_page s \<and> version s' = version s))"
proof -
  let ?m = "mem s"
  have wf: "wf_shape t" using assms(1) by (simp add: tree_at_def)
  obtain lx rx where ref: "rando_map_delete dstart s =
           Some (case del ?m dstart t of
                   Inl e \<Rightarrow> Inl e
                 | Inr (x, t') \<Rightarrow>
                     Inr ((relink Root t' (unlink x lx rx s))
                            \<lparr>mem := (link t' (mem (unlink x lx rx s)))
                                       (x := zero_node\<lparr>right := free_list s\<rparr>),
                             free_list := x\<rparr>))"
    using rando_map_delete_refines[OF assms(1), of dstart] by blast
  show ?thesis
  proof (cases "del ?m dstart t")
    case (Inl e)
    have e: "e = Fatal ''trying to delete inexistent node''" by (rule del_Inl[OF Inl])
    have "rando_map_delete dstart s = Some (Inl (Fatal ''trying to delete inexistent node''))"
      unfolding ref Inl e by simp
    then show ?thesis by simp
  next
    case (Inr p)
    obtain a t' where p: "p = (a, t')" by (cases p)
    have d: "del ?m dstart t = Inr (a, t')" using Inr p by simp
    have f: "nodes t' = nodes t - {a}" "wf_shape t'"
      using del_facts[OF d wf] by blast+
    have c: "a \<in> nodes t" "contains ?m a dstart" by (rule del_contains[OF d wf])+
    define s' where "s' = (relink Root t' (unlink a lx rx s))
       \<lparr>mem := (link t' (mem (unlink a lx rx s)))(a := zero_node\<lparr>right := free_list s\<rparr>),
        free_list := a\<rparr>"
    have r: "rando_map_delete dstart s = Some (Inr s')" unfolding ref d s'_def by simp
    have ms': "mem s' = (link t' (mem (unlink a lx rx s)))(a := zero_node\<lparr>right := free_list s\<rparr>)"
      and rs': "root s' = rootp t'" and fs': "free_list s' = a"
      and cs': "current_page s' = current_page s" and vs': "version s' = version s"
      by (simp_all add: s'_def)
    have "linked (mem s') t' = linked (link t' (mem (unlink a lx rx s))) t'"
      unfolding ms' using f(1) by (intro linked_cong) auto
    then have T: "tree_at s' Root t'"
      using f(2) rs' by (simp add: tree_at_def linked_link)
    have C: "\<forall>b. b \<noteq> a \<longrightarrow> same_content (mem s' b) (mem s b)"
      unfolding ms' by simp
    have F: "\<forall>b. b \<notin> nodes t \<longrightarrow> mem s' b = mem s b"
      unfolding ms' using f(1) c(1) by auto
    have Z: "mem s' a = zero_node\<lparr>right := free_list s\<rparr>" unfolding ms' by simp
    have ex: "\<exists>a\<in>nodes t. contains ?m a dstart" using c by blast
    have "\<exists>a t'. a \<in> nodes t \<and> contains (mem s) a dstart \<and>
                 tree_at s' Root t' \<and> nodes t' = nodes t - {a} \<and>
                 (\<forall>b. b \<noteq> a \<longrightarrow> same_content (mem s' b) (mem s b)) \<and>
                 (\<forall>b. b \<notin> nodes t \<longrightarrow> mem s' b = mem s b) \<and>
                 mem s' a = zero_node\<lparr>right := free_list s\<rparr> \<and>
                 free_list s' = a \<and>
                 current_page s' = current_page s \<and> version s' = version s"
      using c T f(1) C F Z fs' cs' vs' by blast
    then show ?thesis using r ex by simp
  qed
qed

lemma rando_map_delete_outcome:
  assumes "tree_at s Root t"
  shows "\<exists>res. rando_map_delete dstart s = Some res \<and>
           (\<not> (\<exists>a\<in>nodes t. contains (mem s) a dstart) \<longrightarrow>
              res = Inl (Fatal ''trying to delete inexistent node'')) \<and>
           (\<forall>s'. res = Inr s' \<longrightarrow>
              (\<exists>x t'. x \<in> nodes t \<and> contains (mem s) x dstart \<and>
                 tree_at s' Root t' \<and> nodes t' = nodes t - {x} \<and> free_list s' = x \<and>
                 (\<forall>b. b \<noteq> x \<longrightarrow> same_content (mem s' b) (mem s b))))"
proof -
  from rando_map_delete_outcome_full[OF assms, of dstart] obtain res where
    r: "rando_map_delete dstart s = Some res"
    and f: "\<not> (\<exists>a\<in>nodes t. contains (mem s) a dstart) \<longrightarrow>
              res = Inl (Fatal ''trying to delete inexistent node'')"
    and g: "\<forall>s'. res = Inr s' \<longrightarrow>
              (\<exists>a t'. a \<in> nodes t \<and> contains (mem s) a dstart \<and>
                 tree_at s' Root t' \<and> nodes t' = nodes t - {a} \<and>
                 (\<forall>b. b \<noteq> a \<longrightarrow> same_content (mem s' b) (mem s b)) \<and>
                 (\<forall>b. b \<notin> nodes t \<longrightarrow> mem s' b = mem s b) \<and>
                 mem s' a = zero_node\<lparr>right := free_list s\<rparr> \<and>
                 free_list s' = a \<and>
                 current_page s' = current_page s \<and> version s' = version s)"
    by blast
  have "\<exists>x t'. x \<in> nodes t \<and> contains (mem s) x dstart \<and>
                 tree_at s' Root t' \<and> nodes t' = nodes t - {x} \<and> free_list s' = x \<and>
                 (\<forall>b. b \<noteq> x \<longrightarrow> same_content (mem s' b) (mem s b))"
    if "res = Inr s'" for s'
  proof -
    from g that obtain a t' where "a \<in> nodes t" "contains (mem s) a dstart"
      "tree_at s' Root t'" "nodes t' = nodes t - {a}"
      "\<forall>b. b \<noteq> a \<longrightarrow> same_content (mem s' b) (mem s b)" "free_list s' = a"
      by blast
    then show ?thesis by blast
  qed
  then show ?thesis using r f by blast
qed





section \<open>Registrations of length zero\<close>

text \<open>
  The descent of the deletion never stops at a node whose interval is empty;
  right after the insertion of such a node, the descent for its start follows
  the path of the insertion and ends on a null link.
\<close>

lemma del_root_cong_all:
  "(\<And>a. prio (m' a) = prio (m a)) \<Longrightarrow> del_root m' t = del_root m t"
proof (cases t)
  case Lf
  then show ?thesis by simp
next
  case (Nd l c r)
  assume "\<And>a. prio (m' a) = prio (m a)"
  then show ?thesis unfolding Nd by (intro del_root_cong)
qed

lemma del_cong:
  assumes "\<And>a. div_start (m' a) = div_start (m a)" "\<And>a. div_end (m' a) = div_end (m a)"
    "\<And>a. prio (m' a) = prio (m a)"
  shows "del m' k t = del m k t"
proof (induction t)
  case Lf
  show ?case by simp
next
  case (Nd l c r)
  have "del_root m' (Nd l c r) = del_root m (Nd l c r)"
    by (rule del_root_cong_all) (rule assms(3))
  then show ?case using Nd by (simp add: assms(1,2))
qed

lemma del_Inl_left:
  "del m k (Nd l c r) = Inl e \<Longrightarrow> k < div_start (m c) \<Longrightarrow> del m k l = Inl e"
  by (simp split: sum.splits prod.splits)

lemma del_Inl_right:
  "del m k (Nd l c r) = Inl e \<Longrightarrow> \<not> k < div_start (m c) \<Longrightarrow> del m k r = Inl e"
  by (simp split: sum.splits if_splits prod.splits)

lemma del_Inl_ge:
  "del m k (Nd l c r) = Inl e \<Longrightarrow> \<not> k < div_start (m c) \<Longrightarrow> div_end (m c) \<le> k"
  by (simp split: sum.splits if_splits prod.splits)

lemma ins_left:
  assumes "ins m n (Nd l c r) = Inr t'" "div_start (m n) < div_start (m c)"
  shows "\<exists>l'. ins m n l = Inr l' \<and>
     t' = (if prio (m (rootp l')) > prio (m c) then rot_left (Nd l' c r) else Nd l' c r)"
proof (cases "ins m n l")
  case (Inl e)
  with assms show ?thesis by simp
next
  case (Inr l')
  with assms show ?thesis by simp
qed

lemma ins_right:
  assumes "ins m n (Nd l c r) = Inr t'" "\<not> div_start (m n) < div_start (m c)"
  shows "div_end (m c) \<le> div_start (m n) \<and> (\<exists>r'. ins m n r = Inr r' \<and>
     t' = (if prio (m (rootp r')) > prio (m c) then rot_right (Nd l c r') else Nd l c r'))"
proof (cases "div_end (m c) \<le> div_start (m n)")
  case False
  with assms show ?thesis by simp
next
  case True
  show ?thesis
  proof (cases "ins m n r")
    case (Inl e)
    with assms True show ?thesis by simp
  next
    case (Inr r')
    with assms True show ?thesis by simp
  qed
qed


lemma empty_interval_not_found:
  assumes "ins m n t = Inr t'" "div_end (m n) \<le> div_start (m n)"
  shows "del m (div_start (m n)) t' = Inl (Fatal ''trying to delete inexistent node'')"
  using assms(1)
proof (induction t arbitrary: t')
  case Lf
  then have "t' = Nd Lf n Lf" by simp
  then show ?case using assms(2) by simp
next
  case (Nd l c r)
  let ?A = "div_start (m n)"
  let ?F = "Fatal ''trying to delete inexistent node''"
  show ?case
  proof (cases "?A < div_start (m c)")
    case True
    from ins_left[OF Nd.prems True] obtain l' where l': "ins m n l = Inr l'"
      and t': "t' = (if prio (m (rootp l')) > prio (m c) then rot_left (Nd l' c r) else Nd l' c r)"
      by blast
    have IH: "del m ?A l' = Inl ?F" by (rule Nd.IH(1)[OF l'])
    obtain ll sn lr where l'eq: "l' = Nd ll sn lr" using ins_Lf_cases[OF l'] by blast
    have plain: "del m ?A (Nd l' c r) = Inl ?F"
      using True IH by simp
    have rot: "del m ?A (Nd ll sn (Nd lr c r)) = Inl ?F"
    proof (cases "?A < div_start (m sn)")
      case lt: True
      show ?thesis
        using lt del_Inl_left[OF IH[unfolded l'eq] lt] by simp
    next
      case ge: False
      have "del m ?A (Nd lr c r) = Inl ?F"
        using True del_Inl_right[OF IH[unfolded l'eq] ge] by simp
      then show ?thesis
        using ge del_Inl_ge[OF IH[unfolded l'eq] ge] by simp
    qed
    show ?thesis
    proof (cases "prio (m (rootp l')) > prio (m c)")
      case True
      then have "t' = Nd ll sn (Nd lr c r)" unfolding t' l'eq by simp
      then show ?thesis using rot by simp
    next
      case False
      then have "t' = Nd l' c r" unfolding t' by simp
      then show ?thesis using plain by simp
    qed
  next
    case False
    from ins_right[OF Nd.prems False] obtain r' where ge: "div_end (m c) \<le> ?A"
      and r': "ins m n r = Inr r'"
      and t': "t' = (if prio (m (rootp r')) > prio (m c) then rot_right (Nd l c r') else Nd l c r')"
      by blast
    have IH: "del m ?A r' = Inl ?F" by (rule Nd.IH(2)[OF r'])
    obtain rl sn rr where r'eq: "r' = Nd rl sn rr" using ins_Lf_cases[OF r'] by blast
    have plain: "del m ?A (Nd l c r') = Inl ?F"
      using False ge IH by simp
    have rot: "del m ?A (Nd (Nd l c rl) sn rr) = Inl ?F"
    proof (cases "?A < div_start (m sn)")
      case lt: True
      have "del m ?A (Nd l c rl) = Inl ?F"
        using False ge del_Inl_left[OF IH[unfolded r'eq] lt] by simp
      then show ?thesis
        using lt by simp
    next
      case nlt: False
      show ?thesis
        using nlt del_Inl_ge[OF IH[unfolded r'eq] nlt] del_Inl_right[OF IH[unfolded r'eq] nlt]
        by simp
    qed
    show ?thesis
    proof (cases "prio (m (rootp r')) > prio (m c)")
      case True
      then have "t' = Nd (Nd l c rl) sn rr" unfolding t' r'eq by simp
      then show ?thesis using rot by simp
    next
      case False
      then have "t' = Nd l c r'" unfolding t' by simp
      then show ?thesis using plain by simp
    qed
  qed
qed

text \<open>
  Claim C10, as stated, fails in its middle part: a later
  \<open>rando_map_delete\<close> of the start of a zero-length registration need not
  reach the fatal path.  After \<open>[0x1000, 0x1000)\<close> is registered, the
  registration of \<open>[0x1000, 0x1400)\<close> is linked to its right; the delete of
  \<open>0x1000\<close> then descends past the zero-length node, finds the second node,
  and returns normally, with the zero-length node still in the tree.
\<close>

theorem zero_length_delete_counterexample:
  "\<exists>s1 s2 s3.
     rando_map_add None [5] 0x1000 0 0x9000 0x9000 2 0x6000 after_init = Some (Inr s1) \<and>
     rando_map_add None [4] 0x1000 0x400 0xA000 0xA000 3 0x7000 s1 = Some (Inr s2) \<and>
     rando_map_delete 0x1000 s2 = Some (Inr s3) \<and>
     tree_at s3 Root (Nd Lf 0x10010 Lf) \<and> free_list s3 = 0x100a0 \<and>
     div_start (mem s3 0x10010) = 0x1000 \<and> div_end (mem s3 0x10010) = 0x1000"
  by (simp add: rando_eval tree_at_def)

text \<open>
  Claim C10, amended.  When \<open>rando_map_add\<close> is called with
  \<^verbatim>\<open>div_size = 0\<close> on a state whose root designates a finite tree, with a
  fresh non-null node from \<open>alloc_node\<close>, and returns normally: the root
  designates a tree of the old nodes and the new one, whose
  \<^verbatim>\<open>div_start\<close> and \<^verbatim>\<open>div_end\<close> are both the given start; no address
  satisfies the containment test of that node; and \<open>rando_map_delete\<close> of
  that start, called on the resulting state, takes the fatal path of the
  missing node.  In every later state whose root designates a tree that
  holds the node with its end not above its start, \<open>rando_map_delete\<close> of
  any address returns; it takes the fatal path when no live node contains the
  address; and when it returns normally the node is still in the tree, with
  its content, and is not the head of the free list: the node it removed is
  another one, which contains the address.
\<close>

theorem zero_length_registration_stays:
  assumes "alloc_node mmap_result s = Inr (node, s1)" "tree_at s1 Root t"
    "node \<notin> nodes t" "node \<noteq> nullptr"
    "rando_map_add mmap_result draws dstart 0 ustart uvaddr nfuncs fs s = Some (Inr s')"
  shows "(\<exists>t'. tree_at s' Root t' \<and> nodes t' = insert node (nodes t)) \<and>
         div_start (mem s' node) = dstart \<and> div_end (mem s' node) = dstart \<and>
         (\<forall>k. \<not> contains (mem s') node k) \<and>
         rando_map_delete dstart s' = Some (Inl (Fatal ''trying to delete inexistent node'')) \<and>
         (\<forall>s2 t2 k. tree_at s2 Root t2 \<and> node \<in> nodes t2 \<and>
              div_end (mem s2 node) \<le> div_start (mem s2 node) \<longrightarrow>
            (\<exists>res. rando_map_delete k s2 = Some res \<and>
               (\<not> (\<exists>a\<in>nodes t2. contains (mem s2) a k) \<longrightarrow>
                  res = Inl (Fatal ''trying to delete inexistent node'')) \<and>
               (\<forall>s3. res = Inr s3 \<longrightarrow>
                  free_list s3 \<noteq> node \<and> same_content (mem s3 node) (mem s2 node) \<and>
                  (\<exists>t3. tree_at s3 Root t3 \<and> node \<in> nodes t3))))"
proof -
  from rando_map_add_draw[OF assms(1,5)] obtain p
    where p: "arc4random_uniform UINT32_MAX draws = Some p" by blast
  from rando_map_add_refines[OF assms(1-4) p, of dstart 0 ustart uvaddr nfuncs fs]
  obtain s3 where m3: "mem s3 = (mem s1)(node :=
                       \<lparr>div_start = dstart, div_end = dstart + 0,
                        undiv_start = ustart, undiv_vaddr = uvaddr,
                        num_funcs = nfuncs, funcs = fs,
                        left = nullptr, right = nullptr,
                        prio = p\<rparr>)"
    and add: "rando_map_add mmap_result draws dstart 0 ustart uvaddr nfuncs fs s =
            Some (case ins (mem s3) node t of
                    Inl e \<Rightarrow> Inl e | Inr t' \<Rightarrow> Inr (relink Root t' s3))"
    by blast
  have wf: "wf_shape t" using assms(2) by (simp add: tree_at_def)
  have ds: "div_start (mem s3 node) = dstart" and de: "div_end (mem s3 node) = dstart"
    by (simp_all add: m3)
  obtain t' where i: "ins (mem s3) node t = Inr t'" and s': "s' = relink Root t' s3"
    using add assms(5) by (cases "ins (mem s3) node t") simp_all
  have wf': "wf_shape t'" by (rule wf_shape_ins[OF i wf assms(3,4)])
  have T': "tree_at s' Root t'" unfolding s' by (rule tree_at_relink[OF wf']) simp
  have N': "nodes t' = insert node (nodes t)" by (rule nodes_ins[OF i])
  have ds': "div_start (mem s' node) = dstart" and de': "div_end (mem s' node) = dstart"
    unfolding s' by (simp_all add: ds de del: relink_Root)
  have nc: "\<forall>k. \<not> contains (mem s') node k"
    unfolding contains_def ds' de' by (simp add: not_less)
  have "del (mem s3) (div_start (mem s3 node)) t' =
          Inl (Fatal ''trying to delete inexistent node'')"
    by (rule empty_interval_not_found[OF i]) (simp add: ds de)
  then have d3: "del (mem s3) dstart t' = Inl (Fatal ''trying to delete inexistent node'')"
    unfolding ds .
  have "del (mem s') dstart t' = del (mem s3) dstart t'"
    unfolding s' by (rule del_cong) (simp_all del: relink_Root)
  then have d': "del (mem s') dstart t' = Inl (Fatal ''trying to delete inexistent node'')"
    using d3 by simp
  have fatal: "rando_map_delete dstart s' =
                 Some (Inl (Fatal ''trying to delete inexistent node''))"
    using rando_map_delete_refines[OF T', of dstart] unfolding d' by simp
  have later: "\<exists>res. rando_map_delete k s2 = Some res \<and>
               (\<not> (\<exists>a\<in>nodes t2. contains (mem s2) a k) \<longrightarrow>
                  res = Inl (Fatal ''trying to delete inexistent node'')) \<and>
               (\<forall>s3. res = Inr s3 \<longrightarrow>
                  free_list s3 \<noteq> node \<and> same_content (mem s3 node) (mem s2 node) \<and>
                  (\<exists>t3. tree_at s3 Root t3 \<and> node \<in> nodes t3))"
    if h: "tree_at s2 Root t2 \<and> node \<in> nodes t2 \<and>
              div_end (mem s2 node) \<le> div_start (mem s2 node)" for s2 t2 k
  proof -
    from h have T2: "tree_at s2 Root t2" and n2: "node \<in> nodes t2"
      and e2: "div_end (mem s2 node) \<le> div_start (mem s2 node)" by blast+
    have notc: "\<not> contains (mem s2) node k"
      using e2 by (auto simp: contains_def not_less)
    from rando_map_delete_outcome[OF T2, of k] obtain res where
      r: "rando_map_delete k s2 = Some res"
      and f: "\<not> (\<exists>a\<in>nodes t2. contains (mem s2) a k) \<longrightarrow>
                res = Inl (Fatal ''trying to delete inexistent node'')"
      and g: "\<forall>s'. res = Inr s' \<longrightarrow>
              (\<exists>x t'. x \<in> nodes t2 \<and> contains (mem s2) x k \<and>
                 tree_at s' Root t' \<and> nodes t' = nodes t2 - {x} \<and> free_list s' = x \<and>
                 (\<forall>b. b \<noteq> x \<longrightarrow> same_content (mem s' b) (mem s2 b)))"
      by blast
    have "free_list s3 \<noteq> node \<and> same_content (mem s3 node) (mem s2 node) \<and>
                  (\<exists>t3. tree_at s3 Root t3 \<and> node \<in> nodes t3)" if "res = Inr s3" for s3
    proof -
      from g that obtain x t3 where x: "contains (mem s2) x k"
        and T3: "tree_at s3 Root t3" and N3: "nodes t3 = nodes t2 - {x}"
        and fl: "free_list s3 = x"
        and sc: "\<forall>b. b \<noteq> x \<longrightarrow> same_content (mem s3 b) (mem s2 b)"
        by blast
      have ne: "node \<noteq> x" using x notc by blast
      have "node \<in> nodes t3" unfolding N3 using n2 ne by simp
      then show ?thesis using T3 fl sc ne by blast
    qed
    then show ?thesis using r f by blast
  qed
  show ?thesis
    using T' N' ds' de' nc fatal later by blast
qed

theorem zero_length_registration_stays_witness:
  "\<exists>s1 s' s2.
     alloc_node None after_init = Inr (0x10010, s1) \<and> tree_at s1 Root Lf \<and>
     rando_map_add None [5] 0x1000 0 0x9000 0x9000 2 0x6000 after_init = Some (Inr s') \<and>
     (\<exists>t'. tree_at s' Root t' \<and> nodes t' = {0x10010}) \<and>
     div_start (mem s' 0x10010) = 0x1000 \<and> div_end (mem s' 0x10010) = 0x1000 \<and>
     rando_map_delete 0x1000 s' = Some (Inl (Fatal ''trying to delete inexistent node'')) \<and>
     rando_map_add None [4] 0x1000 0x400 0xA000 0xA000 3 0x7000 s' = Some (Inr s2) \<and>
     tree_at s2 Root (Nd Lf 0x10010 (Nd Lf 0x100a0 Lf)) \<and>
     (\<exists>res. rando_map_delete 0x1000 s2 = Some res \<and>
        (\<forall>s3. res = Inr s3 \<longrightarrow>
           free_list s3 \<noteq> 0x10010 \<and> (\<exists>t3. tree_at s3 Root t3 \<and> 0x10010 \<in> nodes t3)))"
proof -
  obtain s1 where a: "alloc_node None after_init = Inr (0x10010, s1)"
    and t: "tree_at s1 Root Lf"
    by (simp add: rando_eval tree_at_def)
  obtain s' where add: "rando_map_add None [5] 0x1000 0 0x9000 0x9000 2 0x6000 after_init
                          = Some (Inr s')"
    by (simp add: rando_eval)
  have s'eq: "Some (Inr s') = rando_map_add None [5] 0x1000 0 0x9000 0x9000 2 0x6000 after_init"
    using add by simp
  obtain s2 where add2: "rando_map_add None [4] 0x1000 0x400 0xA000 0xA000 3 0x7000 s'
                          = Some (Inr s2)"
    and t2: "tree_at s2 Root (Nd Lf 0x10010 (Nd Lf 0x100a0 Lf))"
    and e2: "div_end (mem s2 0x10010) \<le> div_start (mem s2 0x10010)"
    using s'eq by (simp add: rando_eval tree_at_def)
  have n: "(0x10010 :: addr) \<notin> nodes Lf" "(0x10010 :: addr) \<noteq> nullptr"
    by (simp_all add: nullptr_def)
  note th = zero_length_registration_stays[OF a t n add]
  from th obtain t' where T: "tree_at s' Root t'" and N: "nodes t' = insert 0x10010 (nodes Lf)"
    by blast
  have one: "\<exists>t'. tree_at s' Root t' \<and> nodes t' = {0x10010}"
    using T N by auto
  from th have ds: "div_start (mem s' 0x10010) = 0x1000"
    and de: "div_end (mem s' 0x10010) = 0x1000"
    and ft: "rando_map_delete 0x1000 s' = Some (Inl (Fatal ''trying to delete inexistent node''))"
    by blast+
  have in2: "(0x10010 :: addr) \<in> nodes (Nd Lf 0x10010 (Nd Lf 0x100a0 Lf))" by simp
  from th have "\<forall>s2 t2 k. tree_at s2 Root t2 \<and> 0x10010 \<in> nodes t2 \<and>
              div_end (mem s2 0x10010) \<le> div_start (mem s2 0x10010) \<longrightarrow>
            (\<exists>res. rando_map_delete k s2 = Some res \<and>
               (\<not> (\<exists>a\<in>nodes t2. contains (mem s2) a k) \<longrightarrow>
                  res = Inl (Fatal ''trying to delete inexistent node'')) \<and>
               (\<forall>s3. res = Inr s3 \<longrightarrow>
                  free_list s3 \<noteq> 0x10010 \<and> same_content (mem s3 0x10010) (mem s2 0x10010) \<and>
                  (\<exists>t3. tree_at s3 Root t3 \<and> 0x10010 \<in> nodes t3)))"
    by blast
  from this t2 in2 e2 have two: "\<exists>res. rando_map_delete 0x1000 s2 = Some res \<and>
        (\<forall>s3. res = Inr s3 \<longrightarrow>
           free_list s3 \<noteq> 0x10010 \<and> (\<exists>t3. tree_at s3 Root t3 \<and> 0x10010 \<in> nodes t3))"
    by blast
  show ?thesis
    using a t add one ds de ft add2 t2 two by blast
qed


section \<open>Lookup after registration\<close>

text \<open>
  Claim C5 holds of the intended registry, in which live intervals never
  overlap, not of the code: the insertion accepts an interval that encloses a
  live one (the case of claim C1).  After \<open>[0x2000, 0x2400)\<close> is registered
  with original start \<open>0xA000\<close>, the insert of \<open>[0x1000, 0x3000)\<close> with
  original start \<open>0x9000\<close> returns normally and the new node has the given
  fields; the address \<open>0x2200\<close> lies in the new interval, but the descent
  by the start/end comparison (the one of \<open>map_tree_delete_node\<close>) stops
  at the old node, whose original start is \<open>0xA000\<close>.
\<close>

theorem lookup_reaches_other_node:
  "\<exists>s1 s2 s3.
     rando_map_add None [5] 0x2000 0x400 0xA000 0xA000 3 0x7000 after_init = Some (Inr s1) \<and>
     rando_map_add None [4] 0x1000 0x2000 0x9000 0x9000 2 0x6000 s1 = Some (Inr s2) \<and>
     tree_at s2 Root (Nd (Nd Lf 0x100a0 Lf) 0x10010 Lf) \<and>
     div_start (mem s2 0x100a0) = 0x1000 \<and> div_end (mem s2 0x100a0) = 0x3000 \<and>
     undiv_start (mem s2 0x100a0) = 0x9000 \<and> undiv_vaddr (mem s2 0x100a0) = 0x9000 \<and>
     num_funcs (mem s2 0x100a0) = 2 \<and> funcs (mem s2 0x100a0) = 0x6000 \<and>
     contains (mem s2) 0x100a0 0x2200 \<and>
     map_tree_delete_node 0x2200 Root s2 = Some (Inr (0x10010, s3)) \<and>
     undiv_start (mem s2 0x10010) = 0xA000"
  by (simp add: rando_eval tree_at_def contains_def)


section \<open>The priority of a new node\<close>

text \<open>
  With the bound \<^verbatim>\<open>UINT32_MAX\<close> the smallest accepted raw value is 1: the
  raw value 0 is the only one that is drawn again, and the accepted values
  \<open>1, \<dots>, 2^32 - 1\<close> are reduced modulo \<open>2^32 - 1\<close>.
\<close>

lemma accept_loop_first:
  "\<forall>x\<in>set pre. x < m \<Longrightarrow> \<not> r < m \<Longrightarrow> accept_loop m (pre @ r # rest) = Some r"
  by (induction pre) simp_all

lemma min_acceptable_UINT32_MAX: "min_acceptable UINT32_MAX = 1"
  by (simp add: min_acceptable_def UINT32_MAX_def)

lemma mod_UINT32_MAX: "(r :: 32 word) mod UINT32_MAX = (if r = 0xFFFFFFFF then 0 else r)"
proof (cases "r = 0xFFFFFFFF")
  case True
  then show ?thesis by (simp add: UINT32_MAX_def)
next
  case False
  have "unat r < 2 ^ LENGTH(32)" by (rule unsigned_less)
  then have "unat r < 4294967296" by simp
  moreover have "unat r \<noteq> 4294967295" using False by (simp add: word_unat_eq_iff)
  ultimately have "unat r < 4294967295" by simp
  then have "unat (r mod UINT32_MAX) = unat r" by (simp add: unat_mod UINT32_MAX_def)
  then show ?thesis using False by (simp add: word_unat_eq_iff)
qed

lemma arc4random_uniform_UINT32_MAX:
  "arc4random_uniform UINT32_MAX draws =
     (case accept_loop 1 draws of None \<Rightarrow> None | Some r \<Rightarrow> Some (r mod UINT32_MAX))"
proof -
  have "\<not> UINT32_MAX < 2" by (simp add: UINT32_MAX_def)
  then show ?thesis by (simp add: arc4random_uniform_def min_acceptable_UINT32_MAX)
qed

lemma arc4random_uniform_single:
  "arc4random_uniform UINT32_MAX [r] = (if r = 0 then None else Some (r mod UINT32_MAX))"
  by (simp add: arc4random_uniform_UINT32_MAX word_less_1)

lemma arc4random_uniform_less:
  assumes "arc4random_uniform UINT32_MAX draws = Some p"
  shows "p < UINT32_MAX"
proof -
  from assms obtain r where "p = r mod UINT32_MAX"
    by (auto simp: arc4random_uniform_UINT32_MAX split: option.splits)
  then show ?thesis by (simp add: word_mod_less_divisor UINT32_MAX_def)
qed

lemma ins_isl_cong:
  assumes "\<And>a. div_start (m' a) = div_start (m a)" "\<And>a. div_end (m' a) = div_end (m a)"
  shows "isl (ins m' n t) = isl (ins m n t)"
proof (induction t)
  case Lf
  show ?case by simp
next
  case (Nd l c r)
  show ?case
  proof (cases "div_start (m n) < div_start (m c)")
    case True
    then show ?thesis using Nd.IH(1)
      by (cases "ins m n l"; cases "ins m' n l") (simp_all add: assms)
  next
    case False
    show ?thesis
    proof (cases "div_end (m c) \<le> div_start (m n)")
      case True
      then show ?thesis using False Nd.IH(2)
        by (cases "ins m n r"; cases "ins m' n r") (simp_all add: assms)
    next
      case nge: False
      then show ?thesis using False by (simp add: assms)
    qed
  qed
qed

lemma accepted_preimage:
  assumes "v < UINT32_MAX"
  shows "{r :: 32 word. r \<noteq> 0 \<and> r mod UINT32_MAX = v} = {if v = 0 then 0xFFFFFFFF else v}"
proof -
  have v: "v \<noteq> 0xFFFFFFFF" using assms by (auto simp: UINT32_MAX_def)
  show ?thesis
  proof (rule set_eqI)
    fix r :: "32 word"
    show "r \<in> {r. r \<noteq> 0 \<and> r mod UINT32_MAX = v} \<longleftrightarrow> r \<in> {if v = 0 then 0xFFFFFFFF else v}"
      using v by (auto simp: mod_UINT32_MAX)
  qed
qed


lemma rando_map_add_first_accepted:
  assumes "\<forall>x\<in>set pre. x < min_acceptable UINT32_MAX" "\<not> r < min_acceptable UINT32_MAX"
  shows "rando_map_add mmap_result (pre @ r # rest) dstart dsize ustart uvaddr nfuncs fs s =
         rando_map_add mmap_result [r] dstart dsize ustart uvaddr nfuncs fs s"
proof -
  have "accept_loop (min_acceptable UINT32_MAX) (pre @ r # rest) =
        accept_loop (min_acceptable UINT32_MAX) [r]"
    using accept_loop_first[OF assms, of rest] assms(2) by simp
  then have E: "arc4random_uniform UINT32_MAX (pre @ r # rest) = arc4random_uniform UINT32_MAX [r]"
    by (simp add: arc4random_uniform_def)
  show ?thesis unfolding rando_map_add_def E by (rule refl)
qed

lemma rando_map_add_prio:
  assumes "alloc_node mmap_result s = Inr (node, s1)"
    and "arc4random_uniform UINT32_MAX draws = Some p"
    and "rando_map_add mmap_result draws dstart dsize ustart uvaddr nfuncs fs s = Some (Inr s')"
  shows "prio (mem s' node) = p"
proof -
  let ?s3 = "s1\<lparr>current_page := (current_page s1)
                       \<lparr>next_p := next_p (current_page s1) + sizeof_RandoMapNode\<rparr>,
               mem := (mem s1)(node :=
                       \<lparr>div_start = dstart, div_end = dstart + dsize,
                        undiv_start = ustart, undiv_vaddr = uvaddr,
                        num_funcs = nfuncs, funcs = fs,
                        left = nullptr, right = nullptr,
                        prio = p\<rparr>)\<rparr>"
  have "map_tree_insert_node node Root ?s3 = Some (Inr s')"
    using assms by (simp add: rando_map_add_def Let_def)
  from insert_links_only[OF this]
  have "prio (mem s' node) = prio (mem ?s3 node)"
    by (simp add: links_only_def same_content_def)
  then show ?thesis by simp
qed

lemma rando_map_add_single_draw:
  assumes "alloc_node mmap_result s = Inr (node, s1)" "tree_at s1 Root t"
    "node \<notin> nodes t" "node \<noteq> nullptr"
    and "rando_map_add mmap_result draws dstart dsize ustart uvaddr nfuncs fs s = Some (Inr s')"
  shows "(\<exists>s''. rando_map_add mmap_result [r] dstart dsize ustart uvaddr nfuncs fs s
                   = Some (Inr s'') \<and> prio (mem s'' node) = v)
         \<longleftrightarrow> r \<noteq> 0 \<and> r mod UINT32_MAX = v"
proof (cases "r = 0")
  case True
  then have "rando_map_add mmap_result [r] dstart dsize ustart uvaddr nfuncs fs s = None"
    using assms(1) by (simp add: rando_map_add_def arc4random_uniform_single)
  then show ?thesis using True by simp
next
  case False
  let ?q = "r mod UINT32_MAX"
  have q: "arc4random_uniform UINT32_MAX [r] = Some ?q"
    using False by (simp add: arc4random_uniform_single)
  from rando_map_add_draw[OF assms(1,5)] obtain p
    where p: "arc4random_uniform UINT32_MAX draws = Some p" by blast
  from rando_map_add_refines[OF assms(1-4) p, of dstart dsize ustart uvaddr nfuncs fs]
  obtain s3 where m3: "mem s3 = (mem s1)(node :=
                       \<lparr>div_start = dstart, div_end = dstart + dsize,
                        undiv_start = ustart, undiv_vaddr = uvaddr,
                        num_funcs = nfuncs, funcs = fs,
                        left = nullptr, right = nullptr,
                        prio = p\<rparr>)"
    and add: "rando_map_add mmap_result draws dstart dsize ustart uvaddr nfuncs fs s =
            Some (case ins (mem s3) node t of
                    Inl e \<Rightarrow> Inl e | Inr t' \<Rightarrow> Inr (relink Root t' s3))"
    by blast
  from rando_map_add_refines[OF assms(1-4) q, of dstart dsize ustart uvaddr nfuncs fs]
  obtain s4 where m4: "mem s4 = (mem s1)(node :=
                       \<lparr>div_start = dstart, div_end = dstart + dsize,
                        undiv_start = ustart, undiv_vaddr = uvaddr,
                        num_funcs = nfuncs, funcs = fs,
                        left = nullptr, right = nullptr,
                        prio = ?q\<rparr>)"
    and add4: "rando_map_add mmap_result [r] dstart dsize ustart uvaddr nfuncs fs s =
            Some (case ins (mem s4) node t of
                    Inl e \<Rightarrow> Inl e | Inr t' \<Rightarrow> Inr (relink Root t' s4))"
    by blast
  have "\<not> isl (ins (mem s3) node t)"
    using add assms(5) by (cases "ins (mem s3) node t") simp_all
  moreover have "isl (ins (mem s4) node t) = isl (ins (mem s3) node t)"
    by (rule ins_isl_cong) (simp_all add: m3 m4)
  ultimately obtain t4 where i4: "ins (mem s4) node t = Inr t4"
    by (cases "ins (mem s4) node t") simp_all
  have r4: "rando_map_add mmap_result [r] dstart dsize ustart uvaddr nfuncs fs s
              = Some (Inr (relink Root t4 s4))"
    unfolding add4 i4 by simp
  have "prio (mem (relink Root t4 s4) node) = ?q"
    by (simp add: m4 del: relink_Root)
  then show ?thesis using r4 False by auto
qed

text \<open>
  Claim C7, as stated, fails: the priority is \<^verbatim>\<open>arc4random_uniform(UINT32_MAX)\<close>,
  a value below \<open>2^32 - 1\<close>, so \<open>2^32 - 1\<close> itself is never the priority of a
  new node, whatever the generator returns.
\<close>

theorem rando_map_add_prio_max_counterexample:
  "\<not> (\<exists>draws s'. rando_map_add None draws 0x2000 0x400 0xA000 0xA000 3 0x7000 after_init
                  = Some (Inr s')
        \<and> prio (mem s' (root s')) = 0xFFFFFFFF)"
proof -
  have "arc4random_uniform UINT32_MAX draws \<noteq> Some 0xFFFFFFFF" for draws
    using arc4random_uniform_less[of draws "0xFFFFFFFF"] by (auto simp: UINT32_MAX_def)
  then show ?thesis
    by (auto simp: after_init_def rando_map_init_def alloc_map_page_def boot_def PAGE_SIZE_def
        sizeof_RandoMapNode_def sizeof_RandoMapHeader_def kMapVersion_def nullptr_def
        rando_map_add_def alloc_node_def Let_def zero_node_def map_tree_insert_node.simps
        split: option.splits)
qed

text \<open>
  Claim C7, amended.  Whenever \<open>rando_map_add\<close> links the node that
  \<open>alloc_node\<close> handed out, the priority of that node is the first raw
  output of the generator that is not below \<open>2^32 mod (2^32 - 1)\<close>, reduced
  modulo \<open>2^32 - 1\<close>, and it is below \<open>2^32 - 1\<close>; the outcome of the call
  is the one of the call that is given that accepted output alone; and, on a
  state whose root designates a finite tree, every value \<open>v\<close> of
  \<open>[0, 2^32 - 2]\<close> is the priority that the call assigns for exactly one of
  the \<open>2^32\<close> raw outputs: the draw is uniform on \<open>[0, 2^32 - 2]\<close>.
\<close>

theorem rando_map_add_prio_uniform:
  assumes "alloc_node mmap_result s = Inr (node, s1)"
    and "rando_map_add mmap_result draws dstart dsize ustart uvaddr nfuncs fs s = Some (Inr s')"
  shows "(\<exists>r. accept_loop (min_acceptable UINT32_MAX) draws = Some r \<and>
              prio (mem s' node) = r mod UINT32_MAX)
       \<and> prio (mem s' node) < UINT32_MAX
       \<and> (\<forall>pre r rest. (\<forall>x\<in>set pre. x < min_acceptable UINT32_MAX) \<and>
              \<not> r < min_acceptable UINT32_MAX \<longrightarrow>
            rando_map_add mmap_result (pre @ r # rest) dstart dsize ustart uvaddr nfuncs fs s =
            rando_map_add mmap_result [r] dstart dsize ustart uvaddr nfuncs fs s)
       \<and> (tree_at s1 Root t \<and> node \<notin> nodes t \<and> node \<noteq> nullptr \<longrightarrow>
            (\<forall>v. v < UINT32_MAX \<longrightarrow>
               card {r. \<exists>s''. rando_map_add mmap_result [r] dstart dsize ustart uvaddr nfuncs fs s
                               = Some (Inr s'') \<and> prio (mem s'' node) = v} = 1))"
proof -
  from rando_map_add_draw[OF assms] obtain p
    where p: "arc4random_uniform UINT32_MAX draws = Some p" by blast
  have pr: "prio (mem s' node) = p" by (rule rando_map_add_prio[OF assms(1) p assms(2)])
  have u: "\<not> UINT32_MAX < 2" by (simp add: UINT32_MAX_def)
  from p u obtain r where r: "accept_loop (min_acceptable UINT32_MAX) draws = Some r"
    and pm: "p = r mod UINT32_MAX"
    by (auto simp: arc4random_uniform_def split: option.splits)
  have one: "\<exists>r. accept_loop (min_acceptable UINT32_MAX) draws = Some r \<and>
              prio (mem s' node) = r mod UINT32_MAX"
    using r pm pr by simp
  have two: "prio (mem s' node) < UINT32_MAX"
    unfolding pr by (rule arc4random_uniform_less[OF p])
  have three: "\<forall>pre r rest. (\<forall>x\<in>set pre. x < min_acceptable UINT32_MAX) \<and>
              \<not> r < min_acceptable UINT32_MAX \<longrightarrow>
            rando_map_add mmap_result (pre @ r # rest) dstart dsize ustart uvaddr nfuncs fs s =
            rando_map_add mmap_result [r] dstart dsize ustart uvaddr nfuncs fs s"
    using rando_map_add_first_accepted by blast
  have four: "card {r. \<exists>s''. rando_map_add mmap_result [r] dstart dsize ustart uvaddr nfuncs fs s
                               = Some (Inr s'') \<and> prio (mem s'' node) = v} = 1"
    if h: "tree_at s1 Root t \<and> node \<notin> nodes t \<and> node \<noteq> nullptr" and v: "v < UINT32_MAX" for v
  proof -
    from h have T: "tree_at s1 Root t" and n: "node \<notin> nodes t" "node \<noteq> nullptr" by blast+
    have "{r. \<exists>s''. rando_map_add mmap_result [r] dstart dsize ustart uvaddr nfuncs fs s
                               = Some (Inr s'') \<and> prio (mem s'' node) = v}
          = {r. r \<noteq> 0 \<and> r mod UINT32_MAX = v}"
      using rando_map_add_single_draw[OF assms(1) T n assms(2)] by simp
    also have "\<dots> = {if v = 0 then 0xFFFFFFFF else v}" by (rule accepted_preimage[OF v])
    finally show ?thesis by simp
  qed
  show ?thesis using one two three four by blast
qed

theorem rando_map_add_prio_uniform_witness:
  "\<exists>s1 s'. alloc_node None after_init = Inr (0x10010, s1) \<and>
     tree_at s1 Root Lf \<and>
     rando_map_add None [0, 0xFFFFFFFF, 7] 0x2000 0x400 0xA000 0xA000 3 0x7000 after_init
        = Some (Inr s') \<and>
     prio (mem s' 0x10010) = 0 \<and> prio (mem s' 0x10010) < UINT32_MAX \<and>
     rando_map_add None [0, 0xFFFFFFFF, 7] 0x2000 0x400 0xA000 0xA000 3 0x7000 after_init =
       rando_map_add None [0xFFFFFFFF] 0x2000 0x400 0xA000 0xA000 3 0x7000 after_init \<and>
     card {r. \<exists>s''. rando_map_add None [r] 0x2000 0x400 0xA000 0xA000 3 0x7000 after_init
                       = Some (Inr s'') \<and> prio (mem s'' 0x10010) = 7} = 1"
proof -
  obtain s1 where a: "alloc_node None after_init = Inr (0x10010, s1)"
    and t: "tree_at s1 Root Lf"
    by (simp add: rando_eval tree_at_def)
  obtain s' where b:
    "rando_map_add None [0, 0xFFFFFFFF, 7] 0x2000 0x400 0xA000 0xA000 3 0x7000 after_init
       = Some (Inr s')"
    by (simp add: rando_eval)
  note th = rando_map_add_prio_uniform[OF a b, of Lf]
  have al: "accept_loop (min_acceptable UINT32_MAX) [0, 0xFFFFFFFF, 7] = Some 0xFFFFFFFF"
    by (simp add: min_acceptable_UINT32_MAX)
  from th obtain r where "accept_loop (min_acceptable UINT32_MAX) [0, 0xFFFFFFFF, 7] = Some r"
    "prio (mem s' 0x10010) = r mod UINT32_MAX" by blast
  with al have p0: "prio (mem s' 0x10010) = 0" by (simp add: UINT32_MAX_def)
  from th have lt: "prio (mem s' 0x10010) < UINT32_MAX" by blast
  from th have "\<forall>pre r rest. (\<forall>x\<in>set pre. x < min_acceptable UINT32_MAX) \<and>
              \<not> r < min_acceptable UINT32_MAX \<longrightarrow>
            rando_map_add None (pre @ r # rest) 0x2000 0x400 0xA000 0xA000 3 0x7000 after_init =
            rando_map_add None [r] 0x2000 0x400 0xA000 0xA000 3 0x7000 after_init"
    by blast
  from this[rule_format, of "[0]" "0xFFFFFFFF" "[7]"]
  have fa: "rando_map_add None [0, 0xFFFFFFFF, 7] 0x2000 0x400 0xA000 0xA000 3 0x7000 after_init =
       rando_map_add None [0xFFFFFFFF] 0x2000 0x400 0xA000 0xA000 3 0x7000 after_init"
    by (simp add: min_acceptable_UINT32_MAX)
  have n: "(0x10010 :: addr) \<notin> nodes Lf" "(0x10010 :: addr) \<noteq> nullptr"
    by (simp_all add: nullptr_def)
  have v: "(7 :: 32 word) < UINT32_MAX" by (simp add: UINT32_MAX_def)
  from th t n have "\<forall>v. v < UINT32_MAX \<longrightarrow>
               card {r. \<exists>s''. rando_map_add None [r] 0x2000 0x400 0xA000 0xA000 3 0x7000 after_init
                               = Some (Inr s'') \<and> prio (mem s'' 0x10010) = v} = 1"
    by blast
  with v have c: "card {r. \<exists>s''. rando_map_add None [r] 0x2000 0x400 0xA000 0xA000 3 0x7000 after_init
                       = Some (Inr s'') \<and> prio (mem s'' 0x10010) = 7} = 1"
    by blast
  show ?thesis using a t b p0 lt fa c by blast
qed

end
